theory Spec2Isabelle
  imports Complex_Main "HOL-Library.AList"
begin

section \<open>JSON values as the resolver sees them\<close>

text \<open>
  The document and every schema fragment are plain data parsed from JSON. The resolver
  (\<^verbatim>\<open>parser.ts\<close>) is written against the TypeScript interfaces \<^verbatim>\<open>OpenAPISpec\<close> and
  \<^verbatim>\<open>Schema\<close>, but at run time it inspects whatever value it is handed, so the
  embedding works on untyped JSON values and spells out what the script does on each
  kind of value. An object is its list of own properties in insertion order (an object
  in memory carries each key once); \<^verbatim>\<open>undefined\<close> is the \<open>None\<close> of an option.
  Every object is a plain one, as \<^verbatim>\<open>JSON.parse\<close>, an object literal or a spread
  makes it, and every array a plain array, so what a value inherits is what the run
  time's \<^verbatim>\<open>Object.prototype\<close> and \<^verbatim>\<open>Array.prototype\<close> hold; these are modelled
  below, where the pointer walk can reach them. Strings are lists of characters; the
  string operations used (\<^verbatim>\<open>startsWith\<close>, \<^verbatim>\<open>substring\<close>, \<^verbatim>\<open>split\<close>,
  \<^verbatim>\<open>replace\<close>) work unit by unit and do not depend on the alphabet. The engine
  lists integer-like keys of an object before the others; that reordering is not
  modelled, and no statement below depends on the order of keys.
\<close>

datatype json =
    JNull
  | JBool bool
  | JNum rat
  | JStr string
  | JArr "json list"
  | JObj "(string \<times> json) list"

text \<open>
  What the resolver and the version check can throw: the four \<^verbatim>\<open>Error\<close>s of
  \<^verbatim>\<open>resolveRef\<close>, each carrying the pointer it names in its message, the run time's
  \<^verbatim>\<open>TypeError\<close>, and the \<^verbatim>\<open>Error\<close> of \<^verbatim>\<open>detectVersion\<close>.
\<close>

datatype error =
    ExternalRef string
  | PathMissing string
  | InvalidPath string
  | NotFound string
  | TypeError
  | UnknownVersion

text \<open>
  \<^verbatim>\<open>!schema\<close> and \<^verbatim>\<open>typeof schema === "object"\<close>: the falsy JSON values are
  \<^verbatim>\<open>null\<close>, \<^verbatim>\<open>false\<close>, zero and the empty string; objects, arrays and \<^verbatim>\<open>null\<close> have
  type \<^verbatim>\<open>"object"\<close>.
\<close>

fun truthy :: "json \<Rightarrow> bool" where
  "truthy JNull = False"
| "truthy (JBool b) = b"
| "truthy (JNum n) = (n \<noteq> 0)"
| "truthy (JStr s) = (s \<noteq> [])"
| "truthy (JArr xs) = True"
| "truthy (JObj kvs) = True"

fun typeof_object :: "json \<Rightarrow> bool" where
  "typeof_object JNull = True"
| "typeof_object (JArr xs) = True"
| "typeof_object (JObj kvs) = True"
| "typeof_object _ = False"

text \<open>
  The own enumerable properties of a value, as a spread or \<^verbatim>\<open>Object.entries\<close> lists
  them: those of an object; the elements of an array under their indices in decimal;
  the characters of a string likewise; none for the other primitives.
\<close>

definition digit_char :: "nat \<Rightarrow> char" where
  "digit_char d = ''0123456789'' ! d"

fun string_of_nat :: "nat \<Rightarrow> string" where
  "string_of_nat n =
     (if n < 10 then [digit_char n]
      else string_of_nat (n div 10) @ [digit_char (n mod 10)])"

declare string_of_nat.simps [simp del]

definition index_keys :: "nat \<Rightarrow> string list" where
  "index_keys n = map string_of_nat [0..<n]"

definition arr_entries :: "json list \<Rightarrow> (string \<times> json) list" where
  "arr_entries xs = zip (index_keys (length xs)) xs"

fun own_entries :: "json \<Rightarrow> (string \<times> json) list" where
  "own_entries (JObj kvs) = kvs"
| "own_entries (JArr xs) = arr_entries xs"
| "own_entries (JStr s) = zip (index_keys (length s)) (map (\<lambda>c. JStr [c]) s)"
| "own_entries _ = []"

text \<open>
  The own properties of an object or an array under a given name: an array also owns
  its \<^verbatim>\<open>length\<close>, which no spread copies. This is the whole of a property read
  whenever the name is one that no prototype defines, which holds for every name the
  scripts spell out (\<^verbatim>\<open>schema.$ref\<close>, \<^verbatim>\<open>result.items\<close>, \<^verbatim>\<open>spec.swagger\<close>, ...;
  lemma \<open>fixed_name_read\<close> below).
\<close>

fun own_prop :: "json \<Rightarrow> string \<Rightarrow> json option" where
  "own_prop (JObj kvs) k = map_of kvs k"
| "own_prop (JArr xs) k =
     (if k = ''length'' then Some (JNum (of_nat (length xs))) else map_of (arr_entries xs) k)"
| "own_prop _ k = None"

text \<open>
  A read under a computed name, \<^verbatim>\<open>current[decodedSegment]\<close> in \<^verbatim>\<open>resolveRef\<close>, goes
  on along the prototype chain when the value has no own property of that name: a
  plain object inherits from \<^verbatim>\<open>Object.prototype\<close>, an array from
  \<^verbatim>\<open>Array.prototype\<close> and then from \<^verbatim>\<open>Object.prototype\<close>. So a walk can arrive at
  something that is not data: a built-in function (under \<^verbatim>\<open>constructor\<close>,
  \<^verbatim>\<open>toString\<close>, \<^verbatim>\<open>map\<close>, ...) or, through the accessor \<^verbatim>\<open>__proto__\<close>, a prototype
  object itself. The two tables list the methods of the prototypes that have a string
  for a name, as ECMAScript 2023 defines them; a function is kept as its name.
  \<^verbatim>\<open>__proto__\<close> answers the prototype of the value it is read on (\<^verbatim>\<open>null\<close> on
  \<^verbatim>\<open>Object.prototype\<close>), and \<^verbatim>\<open>Array.prototype\<close> is itself an empty array, of
  \<^verbatim>\<open>length\<close> zero. None of the built-in properties is enumerable, so a spread of a
  function or of a prototype copies nothing. Only a value of type \<^verbatim>\<open>"object"\<close> other
  than \<^verbatim>\<open>null\<close> is ever read in this way: the walk and the \<^verbatim>\<open>in\<close> operator both
  throw on anything else before they read, so the last equation of \<open>get_prop\<close> is
  never used.
\<close>

datatype prototype = ObjectPrototype | ArrayPrototype

datatype 'v reached = Data 'v | Prototype prototype | Function string

definition object_prototype_methods :: "string list" where
  "object_prototype_methods =
     [''hasOwnProperty'', ''isPrototypeOf'', ''propertyIsEnumerable'', ''toLocaleString'',
      ''toString'', ''valueOf'', ''__defineGetter__'', ''__defineSetter__'',
      ''__lookupGetter__'', ''__lookupSetter__'']"

definition array_prototype_methods :: "string list" where
  "array_prototype_methods =
     [''at'', ''concat'', ''copyWithin'', ''entries'', ''every'', ''fill'', ''filter'', ''find'',
      ''findIndex'', ''findLast'', ''findLastIndex'', ''flat'', ''flatMap'', ''forEach'',
      ''includes'', ''indexOf'', ''join'', ''keys'', ''lastIndexOf'', ''map'', ''pop'', ''push'',
      ''reduce'', ''reduceRight'', ''reverse'', ''shift'', ''slice'', ''some'', ''sort'',
      ''splice'', ''toLocaleString'', ''toReversed'', ''toSorted'', ''toSpliced'', ''toString'',
      ''unshift'', ''values'', ''with'']"

definition object_prototype_function :: "string \<Rightarrow> string option" where
  "object_prototype_function k =
     (if k = ''constructor'' then Some ''Object''
      else if k \<in> set object_prototype_methods then Some (''Object.prototype.'' @ k)
      else None)"

fun inherited_function :: "prototype \<Rightarrow> string \<Rightarrow> string option" where
  "inherited_function ObjectPrototype k = object_prototype_function k"
| "inherited_function ArrayPrototype k =
     (if k = ''constructor'' then Some ''Array''
      else if k \<in> set array_prototype_methods then Some (''Array.prototype.'' @ k)
      else object_prototype_function k)"

definition inherited :: "prototype \<Rightarrow> string \<Rightarrow> 'v reached option" where
  "inherited proto k =
     (if k = ''__proto__'' then Some (Prototype proto)
      else map_option Function (inherited_function proto k))"

fun get_prop :: "json reached \<Rightarrow> string \<Rightarrow> json reached option" where
  "get_prop (Data (JObj kvs)) k =
     (case own_prop (JObj kvs) k of
        Some v \<Rightarrow> Some (Data v)
      | None \<Rightarrow> inherited ObjectPrototype k)"
| "get_prop (Data (JArr xs)) k =
     (case own_prop (JArr xs) k of
        Some v \<Rightarrow> Some (Data v)
      | None \<Rightarrow> inherited ArrayPrototype k)"
| "get_prop (Prototype ObjectPrototype) k =
     (if k = ''__proto__'' then Some (Data JNull)
      else map_option Function (inherited_function ObjectPrototype k))"
| "get_prop (Prototype ArrayPrototype) k =
     (if k = ''length'' then Some (Data (JNum 0))
      else if k = ''__proto__'' then Some (Prototype ObjectPrototype)
      else map_option Function (inherited_function ArrayPrototype k))"
| "get_prop _ k = None"

text \<open>
  The names under which the prototypes answer, and the names the scripts themselves
  read (in \<^verbatim>\<open>resolveSchema\<close>, \<^verbatim>\<open>detectVersion\<close> and \<^verbatim>\<open>normalizeSpec\<close>). No name
  of the second list is in the first, so for the scripts' own reads the chain adds
  nothing and \<open>own_prop\<close> is the read. (Where \<^verbatim>\<open>normalizeSpec\<close> reads one of these
  names on what may be a string, a number or a boolean, the prototypes of those define
  none of them either; a string owns its characters under their indices.)
\<close>

definition builtin_names :: "string list" where
  "builtin_names =
     ''__proto__'' # ''length'' # ''constructor'' # object_prototype_methods @ array_prototype_methods"

definition fixed_names :: "string list" where
  "fixed_names =
     [''$ref'', ''properties'', ''items'', ''additionalProperties'', ''allOf'', ''oneOf'', ''anyOf'',
      ''not'', ''swagger'', ''openapi'', ''host'', ''schemes'', ''basePath'', ''info'', ''title'',
      ''description'', ''paths'', ''definitions'', ''servers'', ''url'', ''components'', ''schemas'',
      ''0'']"

lemma inherited_function_builtin:
  "inherited_function proto k = Some name \<Longrightarrow> k \<in> set builtin_names"
  by (cases proto) (auto simp: builtin_names_def object_prototype_function_def split: if_splits)

lemma inherited_builtin: "inherited proto k = Some c \<Longrightarrow> k \<in> set builtin_names"
proof (cases "k = ''__proto__''")
  case True
  then show ?thesis by (simp add: builtin_names_def)
next
  case False
  assume "inherited proto k = Some c"
  with False obtain name where "inherited_function proto k = Some name"
    by (auto simp: inherited_def)
  then show ?thesis by (rule inherited_function_builtin)
qed

lemma get_prop_data:
  assumes "k \<notin> set builtin_names"
  shows "get_prop (Data v) k = map_option Data (own_prop v k)"
proof -
  have none: "inherited proto k = (None :: json reached option)" for proto
    using assms inherited_builtin[of proto k] by (cases "inherited proto k :: json reached option") auto
  show ?thesis
  proof (cases v)
    case (JObj kvs)
    then show ?thesis using none by (cases "map_of kvs k") simp_all
  next
    case (JArr xs)
    then show ?thesis using none by (cases "own_prop (JArr xs) k") simp_all
  qed simp_all
qed

lemma fixed_names_not_builtin: "k \<in> set fixed_names \<Longrightarrow> k \<notin> set builtin_names"
  by (auto simp: fixed_names_def builtin_names_def object_prototype_methods_def
                 array_prototype_methods_def)

lemma fixed_name_read:
  "k \<in> set fixed_names \<Longrightarrow> get_prop (Data v) k = map_option Data (own_prop v k)"
  by (rule get_prop_data) (rule fixed_names_not_builtin)

text \<open>
  \<^verbatim>\<open>resolveRef\<close>: the pointer must start with \<^verbatim>\<open>#/\<close>; the rest is split at every
  \<^verbatim>\<open>/\<close>; each segment has \<^verbatim>\<open>~1\<close> replaced by \<^verbatim>\<open>/\<close> and then \<^verbatim>\<open>~0\<close> by \<^verbatim>\<open>~\<close>;
  the walk throws on a \<^verbatim>\<open>null\<close> or \<^verbatim>\<open>undefined\<close> current value (path does not exist)
  and on any other value that is not an object (invalid path; a function has type
  \<^verbatim>\<open>"function"\<close>), and an \<^verbatim>\<open>undefined\<close> end of the walk is thrown as not found.
  Called with a value that is not a string, \<^verbatim>\<open>ref.startsWith\<close> is not a function
  and the call is a \<^verbatim>\<open>TypeError\<close>.
\<close>

definition startsWith :: "string \<Rightarrow> string \<Rightarrow> bool" where
  "startsWith s p = (take (length p) s = p)"

fun split_on :: "char \<Rightarrow> string \<Rightarrow> string list" where
  "split_on c [] = [[]]"
| "split_on c (x # xs) =
     (if x = c then [] # split_on c xs
      else (case split_on c xs of
              w # ws \<Rightarrow> (x # w) # ws
            | [] \<Rightarrow> [[x]]))"

fun replace_pair :: "char \<Rightarrow> char \<Rightarrow> string \<Rightarrow> string \<Rightarrow> string" where
  "replace_pair a b r (x # y # zs) =
     (if x = a \<and> y = b then r @ replace_pair a b r zs
      else x # replace_pair a b r (y # zs))"
| "replace_pair a b r xs = xs"

definition decodeSegment :: "string \<Rightarrow> string" where
  "decodeSegment segment =
     replace_pair CHR ''~'' CHR ''0'' ''~'' (replace_pair CHR ''~'' CHR ''1'' ''/'' segment)"

fun is_null :: "json reached \<Rightarrow> bool" where
  "is_null (Data JNull) = True"
| "is_null _ = False"

fun reached_object :: "json reached \<Rightarrow> bool" where
  "reached_object (Data v) = typeof_object v"
| "reached_object (Prototype proto) = True"
| "reached_object (Function name) = False"

fun walk :: "string \<Rightarrow> json reached option \<Rightarrow> string list \<Rightarrow> error + json reached option" where
  "walk ref current [] = Inr current"
| "walk ref current (segment # path) =
     (case current of
        None \<Rightarrow> Inl (PathMissing ref)
      | Some v \<Rightarrow>
          if is_null v then Inl (PathMissing ref)
          else if \<not> reached_object v then Inl (InvalidPath ref)
          else walk ref (get_prop v (decodeSegment segment)) path)"

definition resolveRef :: "json \<Rightarrow> json \<Rightarrow> error + json reached" where
  "resolveRef spec ref =
     (case ref of
        JStr r \<Rightarrow>
          if \<not> startsWith r ''#/'' then Inl (ExternalRef r)
          else (case walk r (Some (Data spec)) (split_on CHR ''/'' (drop 2 r)) of
                  Inl e \<Rightarrow> Inl e
                | Inr None \<Rightarrow> Inl (NotFound r)
                | Inr (Some v) \<Rightarrow> Inr v)
      | _ \<Rightarrow> Inl TypeError)"

text \<open>
  The log line in the \<^verbatim>\<open>catch\<close> block interpolates \<^verbatim>\<open>schema.$ref\<close> into a template
  literal. Converting a JSON value to text throws only for an object that has an own
  \<^verbatim>\<open>toString\<close> property (which, being data, is not callable, and the inherited
  \<^verbatim>\<open>valueOf\<close> returns the object itself), and for an array that holds such an object:
  \<^verbatim>\<open>join\<close> converts every element but \<^verbatim>\<open>null\<close>.
\<close>

fun toString_throws :: "json \<Rightarrow> bool" where
  "toString_throws (JObj kvs) = (map_of kvs ''toString'' \<noteq> None)"
| "toString_throws (JArr xs) = list_ex toString_throws xs"
| "toString_throws _ = False"

text \<open>
  \<^verbatim>\<open>{ ...a, ...b }\<close> copies the properties of \<^verbatim>\<open>a\<close> and then assigns those of \<^verbatim>\<open>b\<close> in
  order: a key already present keeps its place and takes the new value, a new key goes
  to the end. \<^verbatim>\<open>const { $ref, ...rest } = schema\<close> leaves out one key. What
  \<^verbatim>\<open>resolveRef\<close> returned is spread whatever it is; a function or a prototype has no
  enumerable property of its own.
\<close>

fun spread_entries :: "json reached \<Rightarrow> (string \<times> json) list" where
  "spread_entries (Data v) = own_entries v"
| "spread_entries _ = []"

definition assign :: "(string \<times> 'v) list \<Rightarrow> (string \<times> 'v) list \<Rightarrow> (string \<times> 'v) list" where
  "assign target source = foldl (\<lambda>acc (k, v). AList.update k v acc) target source"

definition without_key :: "string \<Rightarrow> (string \<times> 'v) list \<Rightarrow> (string \<times> 'v) list" where
  "without_key k kvs = filter (\<lambda>(k', v). k' \<noteq> k) kvs"

text \<open>
  \<^verbatim>\<open>Array.prototype.map\<close> with a callback that may throw: the first exception ends it.
\<close>

fun mapE :: "('a \<Rightarrow> error + 'b) \<Rightarrow> 'a list \<Rightarrow> error + 'b list" where
  "mapE f [] = Inr []"
| "mapE f (x # xs) =
     (case f x of
        Inl e \<Rightarrow> Inl e
      | Inr y \<Rightarrow> (case mapE f xs of Inl e \<Rightarrow> Inl e | Inr ys \<Rightarrow> Inr (y # ys)))"

text \<open>
  The placeholder returned for a pointer already on the path, and the visited set. The
  set is declared \<^verbatim>\<open>Set<string>\<close>, so it is a set of strings here; a \<^verbatim>\<open>$ref\<close> that is
  not a string is never found in it, and adding one has no effect that is observed
  later, because \<^verbatim>\<open>resolveRef\<close> then throws and the call returns. For the same
  reason only a string reaches the placeholder's template literal.
\<close>

definition circular_placeholder :: "string \<Rightarrow> json" where
  "circular_placeholder p =
     JObj [(''description'', JStr (''Circular reference: '' @ p)), (''type'', JStr ''object'')]"

fun visited_has :: "string set \<Rightarrow> json \<Rightarrow> bool" where
  "visited_has visited (JStr p) = (p \<in> visited)"
| "visited_has visited _ = False"

fun visited_add :: "json \<Rightarrow> string set \<Rightarrow> string set" where
  "visited_add (JStr p) visited = insert p visited"
| "visited_add _ visited = visited"

fun template_text :: "json \<Rightarrow> string" where
  "template_text (JStr p) = p"
| "template_text _ = []"

text \<open>
  The seven blocks that resolve the nested fragments of \<^verbatim>\<open>result\<close>, the shallow copy of
  the fragment. Each reads one property of \<^verbatim>\<open>result\<close> and, when it is truthy, replaces
  it by its resolution; \<open>f\<close> stands for the recursive call
  \<^verbatim>\<open>resolveSchema(spec, ..., new Set(visited))\<close>. \<^verbatim>\<open>allOf\<close>, \<^verbatim>\<open>oneOf\<close> and \<^verbatim>\<open>anyOf\<close>
  are mapped without a test for an array, so a truthy value without a \<^verbatim>\<open>map\<close> method
  is a \<^verbatim>\<open>TypeError\<close>. The copy \<^verbatim>\<open>{ ...schema }\<close> has the own properties of the
  fragment, and \<^verbatim>\<open>Object.fromEntries\<close> of entries with distinct keys is the object with
  those entries. Assigning to a property of \<^verbatim>\<open>result\<close> that exists keeps its place.
\<close>

definition resolve_properties ::
  "(json \<Rightarrow> error + json) \<Rightarrow> (string \<times> json) list \<Rightarrow> error + (string \<times> json) list" where
  "resolve_properties f result =
     (case map_of result ''properties'' of
        Some ps \<Rightarrow>
          if truthy ps then
            (case mapE (\<lambda>(key, value). case f value of Inl e \<Rightarrow> Inl e | Inr v \<Rightarrow> Inr (key, v))
                       (own_entries ps) of
               Inl e \<Rightarrow> Inl e
             | Inr es \<Rightarrow> Inr (AList.update ''properties'' (JObj es) result))
          else Inr result
      | None \<Rightarrow> Inr result)"

definition resolve_items ::
  "(json \<Rightarrow> error + json) \<Rightarrow> (string \<times> json) list \<Rightarrow> error + (string \<times> json) list" where
  "resolve_items f result =
     (case map_of result ''items'' of
        Some items \<Rightarrow>
          if truthy items then
            (case items of
               JArr xs \<Rightarrow>
                 (case mapE f xs of
                    Inl e \<Rightarrow> Inl e
                  | Inr ys \<Rightarrow> Inr (AList.update ''items'' (JArr ys) result))
             | _ \<Rightarrow>
                 (case f items of
                    Inl e \<Rightarrow> Inl e
                  | Inr y \<Rightarrow> Inr (AList.update ''items'' y result)))
          else Inr result
      | None \<Rightarrow> Inr result)"

definition resolve_additional ::
  "(json \<Rightarrow> error + json) \<Rightarrow> (string \<times> json) list \<Rightarrow> error + (string \<times> json) list" where
  "resolve_additional f result =
     (case map_of result ''additionalProperties'' of
        Some ap \<Rightarrow>
          if truthy ap \<and> typeof_object ap then
            (case f ap of
               Inl e \<Rightarrow> Inl e
             | Inr y \<Rightarrow> Inr (AList.update ''additionalProperties'' y result))
          else Inr result
      | None \<Rightarrow> Inr result)"

definition resolve_members ::
  "string \<Rightarrow> (json \<Rightarrow> error + json) \<Rightarrow> (string \<times> json) list \<Rightarrow> error + (string \<times> json) list" where
  "resolve_members key f result =
     (case map_of result key of
        Some ms \<Rightarrow>
          if truthy ms then
            (case ms of
               JArr xs \<Rightarrow>
                 (case mapE f xs of
                    Inl e \<Rightarrow> Inl e
                  | Inr ys \<Rightarrow> Inr (AList.update key (JArr ys) result))
             | _ \<Rightarrow> Inl TypeError)
          else Inr result
      | None \<Rightarrow> Inr result)"

definition resolve_not ::
  "(json \<Rightarrow> error + json) \<Rightarrow> (string \<times> json) list \<Rightarrow> error + (string \<times> json) list" where
  "resolve_not f result =
     (case map_of result ''not'' of
        Some n \<Rightarrow>
          if truthy n then
            (case f n of
               Inl e \<Rightarrow> Inl e
             | Inr y \<Rightarrow> Inr (AList.update ''not'' y result))
          else Inr result
      | None \<Rightarrow> Inr result)"

definition then_step ::
  "error + 'a \<Rightarrow> ('a \<Rightarrow> error + 'b) \<Rightarrow> error + 'b" where
  "then_step r k = (case r of Inl e \<Rightarrow> Inl e | Inr v \<Rightarrow> k v)"

definition resolve_nested :: "(json \<Rightarrow> error + json) \<Rightarrow> json \<Rightarrow> error + json" where
  "resolve_nested f schema =
     then_step (resolve_properties f (own_entries schema)) (\<lambda>r1.
     then_step (resolve_items f r1) (\<lambda>r2.
     then_step (resolve_additional f r2) (\<lambda>r3.
     then_step (resolve_members ''allOf'' f r3) (\<lambda>r4.
     then_step (resolve_members ''oneOf'' f r4) (\<lambda>r5.
     then_step (resolve_members ''anyOf'' f r5) (\<lambda>r6.
     then_step (resolve_not f r6) (\<lambda>r7. Inr (JObj r7))))))))"

text \<open>
  For the termination proof: the values on which \<open>resolve_nested\<close> can call \<open>f\<close> are
  among the values of the seven keywords and the own properties of those values. Two
  functions that agree there give the same result, which is what the function package
  needs to know about \<open>resolve_nested\<close>.
\<close>

definition nested_keys :: "string list" where
  "nested_keys = [''properties'', ''items'', ''additionalProperties'', ''allOf'', ''oneOf'', ''anyOf'', ''not'']"

definition kids :: "(string \<times> json) list \<Rightarrow> json set" where
  "kids kvs = (\<Union>k \<in> set nested_keys. case map_of kvs k of
                  None \<Rightarrow> {}
                | Some v \<Rightarrow> insert v (snd ` set (own_entries v)))"

lemma mapE_cong [fundef_cong]:
  "xs = ys \<Longrightarrow> (\<And>x. x \<in> set ys \<Longrightarrow> f x = g x) \<Longrightarrow> mapE f xs = mapE g ys"
  by (induction ys arbitrary: xs) (auto split: sum.splits)

lemma kidsI1: "k \<in> set nested_keys \<Longrightarrow> map_of kvs k = Some v \<Longrightarrow> v \<in> kids kvs"
  unfolding kids_def by force

lemma kidsI2:
  "k \<in> set nested_keys \<Longrightarrow> map_of kvs k = Some v \<Longrightarrow> c \<in> snd ` set (own_entries v) \<Longrightarrow> c \<in> kids kvs"
  unfolding kids_def by force

definition key_kids :: "string \<Rightarrow> (string \<times> json) list \<Rightarrow> json set" where
  "key_kids k kvs = (case map_of kvs k of
                       None \<Rightarrow> {}
                     | Some v \<Rightarrow> insert v (snd ` set (own_entries v)))"

lemma kids_key_kids: "kids kvs = (\<Union>k \<in> set nested_keys. key_kids k kvs)"
  by (simp add: kids_def key_kids_def)

lemma key_kids_cong: "map_of r' k = map_of r k \<Longrightarrow> key_kids k r' = key_kids k r"
  by (simp add: key_kids_def)

lemma then_step_cong:
  "a = b \<Longrightarrow> (\<And>v. b = Inr v \<Longrightarrow> k v = k' v) \<Longrightarrow> then_step a k = then_step b k'"
  by (auto simp: then_step_def split: sum.splits)

lemma resolve_properties_cong:
  assumes "\<And>c. c \<in> key_kids ''properties'' r \<Longrightarrow> f c = g c"
  shows "resolve_properties f r = resolve_properties g r"
proof (cases "map_of r ''properties''")
  case None
  then show ?thesis by (simp add: resolve_properties_def)
next
  case (Some ps)
  have "mapE (\<lambda>(key, value). case f value of Inl e \<Rightarrow> Inl e | Inr v \<Rightarrow> Inr (key, v)) (own_entries ps)
      = mapE (\<lambda>(key, value). case g value of Inl e \<Rightarrow> Inl e | Inr v \<Rightarrow> Inr (key, v)) (own_entries ps)"
  proof (rule mapE_cong[OF refl])
    fix x assume "x \<in> set (own_entries ps)"
    then have "snd x \<in> key_kids ''properties'' r"
      using Some by (simp add: key_kids_def)
    then have "f (snd x) = g (snd x)" by (rule assms)
    then show "(case x of (key, value) \<Rightarrow> case f value of Inl e \<Rightarrow> Inl e | Inr v \<Rightarrow> Inr (key, v))
             = (case x of (key, value) \<Rightarrow> case g value of Inl e \<Rightarrow> Inl e | Inr v \<Rightarrow> Inr (key, v))"
      by (cases x) simp
  qed
  then show ?thesis using Some by (simp add: resolve_properties_def)
qed

lemma snd_arr_entries: "snd ` set (arr_entries xs) = set xs"
proof -
  have "map snd (arr_entries xs) = xs"
    by (simp add: arr_entries_def index_keys_def)
  then show ?thesis by (metis set_map)
qed

lemma in_own_entries_JArr: "x \<in> set xs \<Longrightarrow> x \<in> snd ` set (own_entries (JArr xs))"
  by (simp add: snd_arr_entries)

lemma resolve_items_cong:
  assumes "\<And>c. c \<in> key_kids ''items'' r \<Longrightarrow> f c = g c"
  shows "resolve_items f r = resolve_items g r"
proof (cases "map_of r ''items''")
  case None
  then show ?thesis by (simp add: resolve_items_def)
next
  case (Some items)
  have self: "f items = g items"
    using Some by (intro assms) (simp add: key_kids_def)
  have elems: "mapE f xs = mapE g xs" if "items = JArr xs" for xs
  proof (rule mapE_cong[OF refl])
    fix x assume "x \<in> set xs"
    then have "x \<in> key_kids ''items'' r"
      using Some that in_own_entries_JArr[of x xs] by (simp add: key_kids_def)
    then show "f x = g x" by (rule assms)
  qed
  show ?thesis using Some self elems
    by (cases items) (auto simp: resolve_items_def)
qed

lemma resolve_additional_cong:
  assumes "\<And>c. c \<in> key_kids ''additionalProperties'' r \<Longrightarrow> f c = g c"
  shows "resolve_additional f r = resolve_additional g r"
proof (cases "map_of r ''additionalProperties''")
  case None
  then show ?thesis by (simp add: resolve_additional_def)
next
  case (Some ap)
  have "f ap = g ap"
    using Some by (intro assms) (simp add: key_kids_def)
  then show ?thesis using Some by (simp add: resolve_additional_def)
qed

lemma resolve_not_cong:
  assumes "\<And>c. c \<in> key_kids ''not'' r \<Longrightarrow> f c = g c"
  shows "resolve_not f r = resolve_not g r"
proof (cases "map_of r ''not''")
  case None
  then show ?thesis by (simp add: resolve_not_def)
next
  case (Some n)
  have "f n = g n"
    using Some by (intro assms) (simp add: key_kids_def)
  then show ?thesis using Some by (simp add: resolve_not_def)
qed

lemma resolve_members_cong:
  assumes "\<And>c. c \<in> key_kids key r \<Longrightarrow> f c = g c"
  shows "resolve_members key f r = resolve_members key g r"
proof (cases "map_of r key")
  case None
  then show ?thesis by (simp add: resolve_members_def)
next
  case (Some ms)
  have elems: "mapE f xs = mapE g xs" if "ms = JArr xs" for xs
  proof (rule mapE_cong[OF refl])
    fix x assume "x \<in> set xs"
    then have "x \<in> key_kids key r"
      using Some that in_own_entries_JArr[of x xs] by (simp add: key_kids_def)
    then show "f x = g x" by (rule assms)
  qed
  show ?thesis using Some elems
    by (cases ms) (auto simp: resolve_members_def)
qed

lemma resolve_properties_other:
  "resolve_properties f r = Inr r' \<Longrightarrow> k \<noteq> ''properties'' \<Longrightarrow> map_of r' k = map_of r k"
  unfolding resolve_properties_def
  by (auto simp: update_conv' split: option.splits if_splits sum.splits)

lemma resolve_items_other:
  "resolve_items f r = Inr r' \<Longrightarrow> k \<noteq> ''items'' \<Longrightarrow> map_of r' k = map_of r k"
  unfolding resolve_items_def
  by (auto simp: update_conv' split: option.splits if_splits sum.splits json.splits)

lemma resolve_additional_other:
  "resolve_additional f r = Inr r' \<Longrightarrow> k \<noteq> ''additionalProperties'' \<Longrightarrow> map_of r' k = map_of r k"
  unfolding resolve_additional_def
  by (auto simp: update_conv' split: option.splits if_splits sum.splits)

lemma resolve_members_other:
  "resolve_members key f r = Inr r' \<Longrightarrow> k \<noteq> key \<Longrightarrow> map_of r' k = map_of r k"
  unfolding resolve_members_def
  by (auto simp: update_conv' split: option.splits if_splits sum.splits json.splits)

lemma resolve_not_other:
  "resolve_not f r = Inr r' \<Longrightarrow> k \<noteq> ''not'' \<Longrightarrow> map_of r' k = map_of r k"
  unfolding resolve_not_def
  by (auto simp: update_conv' split: option.splits if_splits sum.splits)

lemma resolve_nested_cong [fundef_cong]:
  assumes "schema = schema'"
    and agree: "\<And>c. c \<in> kids (own_entries schema') \<Longrightarrow> f c = g c"
  shows "resolve_nested f schema = resolve_nested g schema'"
proof -
  let ?r0 = "own_entries schema'"
  have K: "f c = g c" if "k \<in> set nested_keys" "c \<in> key_kids k ?r0" for k c
    using that agree by (auto simp: kids_key_kids)
  have "resolve_nested f schema' = resolve_nested g schema'"
    unfolding resolve_nested_def
  proof (rule then_step_cong)
    show "resolve_properties f ?r0 = resolve_properties g ?r0"
      by (rule resolve_properties_cong) (rule K, simp_all add: nested_keys_def)
  next
    fix r1 assume s1: "resolve_properties g ?r0 = Inr r1"
    have m1: "map_of r1 k = map_of ?r0 k" if "k \<noteq> ''properties''" for k
      using resolve_properties_other[OF s1 that] .
    show "then_step (resolve_items f r1) (\<lambda>r2.
           then_step (resolve_additional f r2) (\<lambda>r3.
           then_step (resolve_members ''allOf'' f r3) (\<lambda>r4.
           then_step (resolve_members ''oneOf'' f r4) (\<lambda>r5.
           then_step (resolve_members ''anyOf'' f r5) (\<lambda>r6.
           then_step (resolve_not f r6) (\<lambda>r7. Inr (JObj r7)))))))
        = then_step (resolve_items g r1) (\<lambda>r2.
           then_step (resolve_additional g r2) (\<lambda>r3.
           then_step (resolve_members ''allOf'' g r3) (\<lambda>r4.
           then_step (resolve_members ''oneOf'' g r4) (\<lambda>r5.
           then_step (resolve_members ''anyOf'' g r5) (\<lambda>r6.
           then_step (resolve_not g r6) (\<lambda>r7. Inr (JObj r7)))))))"
    proof (rule then_step_cong)
      show "resolve_items f r1 = resolve_items g r1"
        by (rule resolve_items_cong) (rule K[of "''items''"], simp add: nested_keys_def,
            simp add: key_kids_cong[OF m1])
    next
      fix r2 assume s2: "resolve_items g r1 = Inr r2"
      have m2: "map_of r2 k = map_of ?r0 k" if "k \<noteq> ''properties''" "k \<noteq> ''items''" for k
        using resolve_items_other[OF s2 that(2)] m1[OF that(1)] by simp
      show "then_step (resolve_additional f r2) (\<lambda>r3.
           then_step (resolve_members ''allOf'' f r3) (\<lambda>r4.
           then_step (resolve_members ''oneOf'' f r4) (\<lambda>r5.
           then_step (resolve_members ''anyOf'' f r5) (\<lambda>r6.
           then_step (resolve_not f r6) (\<lambda>r7. Inr (JObj r7))))))
        = then_step (resolve_additional g r2) (\<lambda>r3.
           then_step (resolve_members ''allOf'' g r3) (\<lambda>r4.
           then_step (resolve_members ''oneOf'' g r4) (\<lambda>r5.
           then_step (resolve_members ''anyOf'' g r5) (\<lambda>r6.
           then_step (resolve_not g r6) (\<lambda>r7. Inr (JObj r7))))))"
      proof (rule then_step_cong)
        show "resolve_additional f r2 = resolve_additional g r2"
          by (rule resolve_additional_cong) (rule K[of "''additionalProperties''"],
              simp add: nested_keys_def, simp add: key_kids_cong[OF m2])
      next
        fix r3 assume s3: "resolve_additional g r2 = Inr r3"
        have m3: "map_of r3 k = map_of ?r0 k"
          if "k \<noteq> ''properties''" "k \<noteq> ''items''" "k \<noteq> ''additionalProperties''" for k
          using resolve_additional_other[OF s3 that(3)] m2[OF that(1,2)] by simp
        show "then_step (resolve_members ''allOf'' f r3) (\<lambda>r4.
           then_step (resolve_members ''oneOf'' f r4) (\<lambda>r5.
           then_step (resolve_members ''anyOf'' f r5) (\<lambda>r6.
           then_step (resolve_not f r6) (\<lambda>r7. Inr (JObj r7)))))
        = then_step (resolve_members ''allOf'' g r3) (\<lambda>r4.
           then_step (resolve_members ''oneOf'' g r4) (\<lambda>r5.
           then_step (resolve_members ''anyOf'' g r5) (\<lambda>r6.
           then_step (resolve_not g r6) (\<lambda>r7. Inr (JObj r7)))))"
        proof (rule then_step_cong)
          show "resolve_members ''allOf'' f r3 = resolve_members ''allOf'' g r3"
            by (rule resolve_members_cong) (rule K[of "''allOf''"],
                simp add: nested_keys_def, simp add: key_kids_cong[OF m3])
        next
          fix r4 assume s4: "resolve_members ''allOf'' g r3 = Inr r4"
          have m4: "map_of r4 k = map_of ?r0 k"
            if "k \<noteq> ''properties''" "k \<noteq> ''items''" "k \<noteq> ''additionalProperties''" "k \<noteq> ''allOf''" for k
            using resolve_members_other[OF s4 that(4)] m3[OF that(1,2,3)] by simp
          show "then_step (resolve_members ''oneOf'' f r4) (\<lambda>r5.
           then_step (resolve_members ''anyOf'' f r5) (\<lambda>r6.
           then_step (resolve_not f r6) (\<lambda>r7. Inr (JObj r7))))
        = then_step (resolve_members ''oneOf'' g r4) (\<lambda>r5.
           then_step (resolve_members ''anyOf'' g r5) (\<lambda>r6.
           then_step (resolve_not g r6) (\<lambda>r7. Inr (JObj r7))))"
          proof (rule then_step_cong)
            show "resolve_members ''oneOf'' f r4 = resolve_members ''oneOf'' g r4"
              by (rule resolve_members_cong) (rule K[of "''oneOf''"],
                  simp add: nested_keys_def, simp add: key_kids_cong[OF m4])
          next
            fix r5 assume s5: "resolve_members ''oneOf'' g r4 = Inr r5"
            have m5: "map_of r5 k = map_of ?r0 k"
              if "k \<noteq> ''properties''" "k \<noteq> ''items''" "k \<noteq> ''additionalProperties''"
                 "k \<noteq> ''allOf''" "k \<noteq> ''oneOf''" for k
              using resolve_members_other[OF s5 that(5)] m4[OF that(1,2,3,4)] by simp
            show "then_step (resolve_members ''anyOf'' f r5) (\<lambda>r6.
                    then_step (resolve_not f r6) (\<lambda>r7. Inr (JObj r7)))
                = then_step (resolve_members ''anyOf'' g r5) (\<lambda>r6.
                    then_step (resolve_not g r6) (\<lambda>r7. Inr (JObj r7)))"
            proof (rule then_step_cong)
              show "resolve_members ''anyOf'' f r5 = resolve_members ''anyOf'' g r5"
                by (rule resolve_members_cong) (rule K[of "''anyOf''"],
                    simp add: nested_keys_def, simp add: key_kids_cong[OF m5])
            next
              fix r6 assume s6: "resolve_members ''anyOf'' g r5 = Inr r6"
              have m6: "map_of r6 ''not'' = map_of ?r0 ''not''"
                using resolve_members_other[OF s6, of "''not''"] m5[of "''not''"] by simp
              show "then_step (resolve_not f r6) (\<lambda>r7. Inr (JObj r7))
                  = then_step (resolve_not g r6) (\<lambda>r7. Inr (JObj r7))"
              proof (rule then_step_cong)
                show "resolve_not f r6 = resolve_not g r6"
                  by (rule resolve_not_cong) (rule K[of "''not''"],
                      simp add: nested_keys_def, simp add: key_kids_cong[OF m6])
              qed simp
            qed
          qed
        qed
      qed
    qed
  qed
  then show ?thesis using assms(1) by simp
qed

text \<open>
  The measure. \<open>refs\<close> collects every string that occurs as the value of a \<^verbatim>\<open>$ref\<close>
  key anywhere in a value: a finite set, and the only pointers the resolver can ever
  follow, since a merged fragment is put together from properties of the document and
  of the fragment. Following a reference adds a pointer of that set to the visited set,
  and entering a nested fragment leaves the visited set alone and makes the fragment
  smaller. So the number of pointers not yet visited, and then the size of the
  fragment, go down.
\<close>

fun refs :: "json \<Rightarrow> string set" where
  "refs (JObj kvs) =
     (\<Union>(k, v) \<in> set kvs.
        (case v of JStr r \<Rightarrow> (if k = ''$ref'' then {r} else {}) | _ \<Rightarrow> {}) \<union> refs v)"
| "refs (JArr xs) = (\<Union>x \<in> set xs. refs x)"
| "refs _ = {}"

fun jsize :: "json \<Rightarrow> nat" where
  "jsize (JObj kvs) = Suc (sum_list (map (\<lambda>(k, v). jsize v) kvs))"
| "jsize (JArr xs) = Suc (sum_list (map jsize xs))"
| "jsize _ = 0"

definition resolve_order :: "((json \<times> json \<times> string set) \<times> (json \<times> json \<times> string set)) set" where
  "resolve_order =
     inv_image (less_than <*lex*> less_than)
       (\<lambda>(spec, schema, visited). (card ((refs spec \<union> refs schema) - visited), jsize schema))"

lemma wf_resolve_order: "wf resolve_order"
  unfolding resolve_order_def by (intro wf_inv_image wf_lex_prod wf_less_than)

lemma finite_refs: "finite (refs j)"
  by (induction j rule: refs.induct) (auto split: json.splits)

lemma digit_char_digit: "d < 10 \<Longrightarrow> digit_char d \<in> set ''0123456789''"
  unfolding digit_char_def by (rule nth_mem) simp

lemma string_of_nat_digits: "set (string_of_nat n) \<subseteq> set ''0123456789''"
proof (induction n rule: string_of_nat.induct)
  case (1 n)
  show ?case
  proof (cases "n < 10")
    case True
    then show ?thesis
      using digit_char_digit[of n] by (subst string_of_nat.simps) simp
  next
    case False
    have "n mod 10 < 10" by simp
    then have "digit_char (n mod 10) \<in> set ''0123456789''" by (rule digit_char_digit)
    with False 1 show ?thesis
      by (subst string_of_nat.simps) simp
  qed
qed

lemma index_keys_not_ref: "''$ref'' \<notin> set (index_keys n)"
proof
  assume "''$ref'' \<in> set (index_keys n)"
  then obtain i where "string_of_nat i = ''$ref''"
    by (auto simp: index_keys_def)
  then have "CHR ''$'' \<in> set (string_of_nat i)" by simp
  then have "CHR ''$'' \<in> set ''0123456789''"
    using string_of_nat_digits by blast
  then show False by simp
qed

lemma zip_index_keys_not_ref: "(k, v) \<in> set (zip (index_keys n) ys) \<Longrightarrow> k \<noteq> ''$ref''"
proof
  assume "(k, v) \<in> set (zip (index_keys n) ys)" "k = ''$ref''"
  then have "''$ref'' \<in> set (index_keys n)" by (auto dest: set_zip_leftD)
  then show False using index_keys_not_ref by blast
qed

lemma refs_JObjI:
  assumes "\<And>k v. (k, v) \<in> set kvs \<Longrightarrow> k \<noteq> ''$ref'' \<and> refs v \<subseteq> A"
  shows "refs (JObj kvs) \<subseteq> A"
proof
  fix r assume "r \<in> refs (JObj kvs)"
  then obtain k v where kv: "(k, v) \<in> set kvs"
      and r: "r \<in> (case v of JStr r \<Rightarrow> (if k = ''$ref'' then {r} else {}) | _ \<Rightarrow> {}) \<union> refs v"
    by auto
  from assms[OF kv] have "k \<noteq> ''$ref''" "refs v \<subseteq> A" by simp_all
  with r show "r \<in> A" by (cases v) auto
qed

lemma refs_own_entries: "refs (JObj (own_entries j)) \<subseteq> refs j"
proof (cases j)
  case (JArr xs)
  have "refs (JObj (arr_entries xs)) \<subseteq> refs (JArr xs)"
  proof (rule refs_JObjI)
    fix k v assume kv: "(k, v) \<in> set (arr_entries xs)"
    then have "k \<noteq> ''$ref''"
      unfolding arr_entries_def by (rule zip_index_keys_not_ref)
    moreover from kv have "v \<in> set xs"
      unfolding arr_entries_def by (rule set_zip_rightD)
    ultimately show "k \<noteq> ''$ref'' \<and> refs v \<subseteq> refs (JArr xs)" by auto
  qed
  then show ?thesis using JArr by simp
next
  case (JStr s)
  have "refs (JObj (zip (index_keys (length s)) (map (\<lambda>c. JStr [c]) s))) \<subseteq> {}"
  proof (rule refs_JObjI)
    fix k v assume kv: "(k, v) \<in> set (zip (index_keys (length s)) (map (\<lambda>c. JStr [c]) s))"
    then have "k \<noteq> ''$ref''" by (rule zip_index_keys_not_ref)
    moreover from kv have "v \<in> set (map (\<lambda>c. JStr [c]) s)" by (rule set_zip_rightD)
    then have "refs v = {}" by auto
    ultimately show "k \<noteq> ''$ref'' \<and> refs v \<subseteq> {}" by simp
  qed
  then show ?thesis using JStr by simp
qed simp_all

lemma refs_JObj_mono: "set kvs \<subseteq> set kvs' \<Longrightarrow> refs (JObj kvs) \<subseteq> refs (JObj kvs')"
  by auto

lemma set_update_subset: "set (AList.update k v al) \<subseteq> insert (k, v) (set al)"
  by (induction al) auto

lemma set_assign_subset: "set (assign target source) \<subseteq> set target \<union> set source"
proof -
  have "set (foldl (\<lambda>acc (k, v). AList.update k v acc) target source) \<subseteq> set target \<union> set source"
  proof (induction source arbitrary: target)
    case Nil
    then show ?case by simp
  next
    case (Cons p ps)
    obtain k v where p: "p = (k, v)" by (cases p)
    have "set (foldl (\<lambda>acc (k, v). AList.update k v acc) (AList.update k v target) ps)
            \<subseteq> set (AList.update k v target) \<union> set ps"
      by (rule Cons.IH)
    also have "\<dots> \<subseteq> insert (k, v) (set target) \<union> set ps"
      using set_update_subset[of k v target] by auto
    finally show ?case using p by auto
  qed
  then show ?thesis by (simp add: assign_def)
qed

lemma set_without_key_subset: "set (without_key k kvs) \<subseteq> set kvs"
  by (auto simp: without_key_def)

lemma refs_value: "(k, v) \<in> set kvs \<Longrightarrow> refs v \<subseteq> refs (JObj kvs)"
  by auto

lemma jsize_value: "(k, v) \<in> set kvs \<Longrightarrow> jsize v < jsize (JObj kvs)"
proof -
  assume "(k, v) \<in> set kvs"
  then have "jsize v \<in> set (map (\<lambda>(k, v). jsize v) kvs)" by force
  then have "jsize v \<le> sum_list (map (\<lambda>(k, v). jsize v) kvs)"
    by (simp add: member_le_sum_list)
  then show ?thesis by simp
qed

lemma jsize_elem: "x \<in> set xs \<Longrightarrow> jsize x < jsize (JArr xs)"
proof -
  assume "x \<in> set xs"
  then have "jsize x \<le> sum_list (map jsize xs)"
    by (simp add: member_le_sum_list)
  then show ?thesis by simp
qed

lemma own_entry_le:
  assumes "c \<in> snd ` set (own_entries v)"
  shows "jsize c \<le> jsize v \<and> refs c \<subseteq> refs v"
proof (cases v)
  case (JObj kvs)
  then obtain k where "(k, c) \<in> set kvs" using assms by auto
  then show ?thesis using JObj jsize_value[of k c kvs] refs_value[of k c kvs] by simp
next
  case (JArr xs)
  then have "c \<in> set xs" using assms by (simp add: snd_arr_entries)
  then show ?thesis using JArr jsize_elem[of c xs] by auto
next
  case (JStr s)
  then obtain ch where "c = JStr [ch]" using assms by (auto dest!: set_zip_rightD)
  then show ?thesis by simp
qed (use assms in simp_all)

lemma own_entry_less:
  assumes "truthy schema" "typeof_object schema" "v \<in> snd ` set (own_entries schema)"
  shows "jsize v < jsize schema \<and> refs v \<subseteq> refs schema"
proof (cases schema)
  case (JObj kvs)
  then obtain k where "(k, v) \<in> set kvs" using assms by auto
  then show ?thesis using JObj jsize_value[of k v kvs] refs_value[of k v kvs] by simp
next
  case (JArr xs)
  then have "v \<in> set xs" using assms by (simp add: snd_arr_entries)
  then show ?thesis using JArr jsize_elem[of v xs] by auto
qed (use assms in simp_all)

lemma kids_less:
  assumes "truthy schema" "typeof_object schema" "c \<in> kids (own_entries schema)"
  shows "jsize c < jsize schema \<and> refs c \<subseteq> refs schema"
proof -
  from assms(3) obtain k v where kv: "map_of (own_entries schema) k = Some v"
      and c: "c = v \<or> c \<in> snd ` set (own_entries v)"
    by (auto simp: kids_def split: option.splits)
  from kv have "v \<in> snd ` set (own_entries schema)"
    by (metis map_of_SomeD image_eqI snd_conv)
  then have v: "jsize v < jsize schema \<and> refs v \<subseteq> refs schema"
    by (rule own_entry_less[OF assms(1,2)])
  from c show ?thesis
  proof
    assume "c = v" with v show ?thesis by simp
  next
    assume "c \<in> snd ` set (own_entries v)"
    then have "jsize c \<le> jsize v \<and> refs c \<subseteq> refs v" by (rule own_entry_le)
    with v show ?thesis by auto
  qed
qed

lemma resolve_order_kid:
  assumes "jsize c < jsize schema" "refs c \<subseteq> refs schema"
  shows "((spec, c, visited), (spec, schema, visited)) \<in> resolve_order"
proof -
  have "(refs spec \<union> refs c) - visited \<subseteq> (refs spec \<union> refs schema) - visited"
    using assms(2) by auto
  moreover have "finite ((refs spec \<union> refs schema) - visited)"
    by (simp add: finite_refs)
  ultimately have "card ((refs spec \<union> refs c) - visited) \<le> card ((refs spec \<union> refs schema) - visited)"
    by (rule card_mono[rotated])
  then show ?thesis using assms(1) by (auto simp: resolve_order_def)
qed

fun reached_refs :: "json reached \<Rightarrow> string set" where
  "reached_refs (Data v) = refs v"
| "reached_refs _ = {}"

lemma own_prop_refs: "own_prop v k = Some c \<Longrightarrow> refs c \<subseteq> refs v"
proof (cases v)
  case (JObj kvs)
  assume "own_prop v k = Some c"
  with JObj have "(k, c) \<in> set kvs" by (auto dest: map_of_SomeD)
  then show ?thesis using JObj refs_value[of k c kvs] by simp
next
  case (JArr xs)
  assume a: "own_prop v k = Some c"
  show ?thesis
  proof (cases "k = ''length''")
    case True
    with a JArr show ?thesis by auto
  next
    case False
    with a JArr have "c \<in> snd ` set (arr_entries xs)"
      by (metis own_prop.simps(2) map_of_SomeD image_eqI snd_conv)
    then show ?thesis using JArr by (auto simp: snd_arr_entries)
  qed
qed simp_all

lemma inherited_refs: "inherited proto k = Some c \<Longrightarrow> reached_refs c = {}"
  by (auto simp: inherited_def split: if_splits)

lemma get_prop_refs: "get_prop c k = Some c' \<Longrightarrow> reached_refs c' \<subseteq> reached_refs c"
proof (induction c k rule: get_prop.induct)
  case (1 kvs k)
  then show ?case
    using own_prop_refs[of "JObj kvs" k] inherited_refs[of ObjectPrototype k c']
    by (cases "own_prop (JObj kvs) k") auto
next
  case (2 xs k)
  then show ?case
    using own_prop_refs[of "JArr xs" k] inherited_refs[of ArrayPrototype k c']
    by (cases "own_prop (JArr xs) k") auto
qed (auto split: if_splits)

lemma walk_refs:
  "walk r cur path = Inr (Some v) \<Longrightarrow> cur = Some c \<Longrightarrow> reached_refs v \<subseteq> reached_refs c"
proof (induction path arbitrary: cur c)
  case Nil
  then show ?case by simp
next
  case (Cons seg path)
  from Cons.prems have w: "walk r (get_prop c (decodeSegment seg)) path = Inr (Some v)"
    by (simp split: if_splits)
  then obtain c' where c': "get_prop c (decodeSegment seg) = Some c'"
    by (cases "get_prop c (decodeSegment seg)"; cases path) auto
  have "reached_refs v \<subseteq> reached_refs c'" using Cons.IH[OF w c'] .
  moreover have "reached_refs c' \<subseteq> reached_refs c" using c' by (rule get_prop_refs)
  ultimately show ?case by blast
qed

lemma resolveRef_Inr:
  assumes "resolveRef spec ref = Inr b"
  shows "\<exists>p. ref = JStr p \<and> startsWith p ''#/'' \<and> reached_refs b \<subseteq> refs spec"
proof -
  from assms obtain p where p: "ref = JStr p"
    by (cases ref) (simp_all add: resolveRef_def)
  with assms have sw: "startsWith p ''#/''"
    by (auto simp: resolveRef_def split: if_splits)
  with assms p have "walk p (Some (Data spec)) (split_on CHR ''/'' (drop 2 p)) = Inr (Some b)"
    by (auto simp: resolveRef_def split: if_splits sum.splits option.splits)
  then have "reached_refs b \<subseteq> reached_refs (Data spec)" by (rule walk_refs) simp
  with p sw show ?thesis by simp
qed

lemma refs_spread_entries: "refs (JObj (spread_entries b)) \<subseteq> reached_refs b"
  using refs_own_entries by (cases b) simp_all

lemma own_prop_ref_in_refs:
  assumes "own_prop schema ''$ref'' = Some (JStr p)"
  shows "p \<in> refs schema"
proof (cases schema)
  case (JObj kvs)
  with assms have "(''$ref'', JStr p) \<in> set kvs" by (auto dest: map_of_SomeD)
  then show ?thesis using JObj by force
next
  case (JArr xs)
  with assms have "(''$ref'', JStr p) \<in> set (arr_entries xs)"
    by (auto dest: map_of_SomeD split: if_splits)
  then have "''$ref'' \<noteq> ''$ref''"
    unfolding arr_entries_def by (rule zip_index_keys_not_ref)
  then show ?thesis by simp
qed (use assms in simp_all)

lemma resolve_order_ref:
  assumes g: "own_prop schema ''$ref'' = Some ref"
    and nv: "\<not> visited_has visited ref"
    and rr: "resolveRef spec ref = Inr b"
  shows "((spec, JObj (assign (spread_entries b) (without_key ''$ref'' (own_entries schema))),
           visited_add ref visited), (spec, schema, visited)) \<in> resolve_order"
proof -
  from resolveRef_Inr[OF rr] obtain p where p: "ref = JStr p"
      and sub: "reached_refs b \<subseteq> refs spec"
    by blast
  let ?m = "JObj (assign (spread_entries b) (without_key ''$ref'' (own_entries schema)))"
  let ?A = "(refs spec \<union> refs schema) - visited"
  have pin: "p \<in> refs schema" using g p by (simp add: own_prop_ref_in_refs)
  have pnv: "p \<notin> visited" using nv p by simp
  have "set (assign (spread_entries b) (without_key ''$ref'' (own_entries schema)))
          \<subseteq> set (spread_entries b @ own_entries schema)"
    using set_assign_subset[of "spread_entries b" "without_key ''$ref'' (own_entries schema)"]
          set_without_key_subset[of "''$ref''" "own_entries schema"]
    by auto
  then have "refs ?m \<subseteq> refs (JObj (spread_entries b @ own_entries schema))"
    by (rule refs_JObj_mono)
  also have "\<dots> = refs (JObj (spread_entries b)) \<union> refs (JObj (own_entries schema))"
    by auto
  finally have m: "refs ?m \<subseteq> refs spec \<union> refs schema"
    using refs_spread_entries[of b] refs_own_entries[of schema] sub by blast
  have "(refs spec \<union> refs ?m) - insert p visited \<subset> ?A"
    using m pin pnv by auto
  moreover have "finite ?A" by (simp add: finite_refs)
  ultimately have "card ((refs spec \<union> refs ?m) - insert p visited) < card ?A"
    by (rule psubset_card_mono[rotated])
  then show ?thesis using p by (simp add: resolve_order_def)
qed

text \<open>
  \<^verbatim>\<open>resolveSchema\<close>. The \<^verbatim>\<open>try\<close> block covers \<^verbatim>\<open>resolveRef\<close> and the recursive call
  on the merged fragment, so an exception from either is caught; the \<^verbatim>\<open>catch\<close> block
  logs, which throws when the \<^verbatim>\<open>$ref\<close> cannot be converted to text, and otherwise
  returns the fragment it was given.
\<close>

function resolveSchema :: "json \<Rightarrow> json \<Rightarrow> string set \<Rightarrow> error + json" where
  "resolveSchema spec schema visited =
     (if \<not> truthy schema \<or> \<not> typeof_object schema then Inr schema
      else
        (case own_prop schema ''$ref'' of
           Some ref \<Rightarrow>
             if truthy ref then
               (if visited_has visited ref then Inr (circular_placeholder (template_text ref))
                else
                  (case (case resolveRef spec ref of
                           Inl e \<Rightarrow> Inl e
                         | Inr resolved \<Rightarrow>
                             resolveSchema spec
                               (JObj (assign (spread_entries resolved)
                                             (without_key ''$ref'' (own_entries schema))))
                               (visited_add ref visited)) of
                     Inr v \<Rightarrow> Inr v
                   | Inl e \<Rightarrow> if toString_throws ref then Inl TypeError else Inr schema))
             else resolve_nested (\<lambda>s. resolveSchema spec s visited) schema
         | None \<Rightarrow> resolve_nested (\<lambda>s. resolveSchema spec s visited) schema))"
  by pat_completeness auto
termination
  apply (relation resolve_order)
  subgoal by (rule wf_resolve_order)
  subgoal by (rule resolve_order_kid) (use kids_less in blast)+
  subgoal by (rule resolve_order_ref)
  subgoal by (rule resolve_order_kid) (use kids_less in blast)+
  done

declare resolveSchema.simps [simp del]

section \<open>What the resolver returns\<close>

text \<open>
  A fragment carries a reference when its \<^verbatim>\<open>$ref\<close> is truthy (the script's test
  \<^verbatim>\<open>if (schema.$ref)\<close>): an absent, null or empty \<^verbatim>\<open>$ref\<close> is no reference.
\<close>

definition carries_ref :: "json \<Rightarrow> bool" where
  "carries_ref schema = (case own_prop schema ''$ref'' of None \<Rightarrow> False | Some ref \<Rightarrow> truthy ref)"

fun returns :: "error + 'a \<Rightarrow> bool" where
  "returns (Inr v) = True"
| "returns (Inl e) = False"

lemma own_prop_Some_object: "own_prop schema k = Some v \<Longrightarrow> truthy schema \<and> typeof_object schema"
  by (cases schema) simp_all

lemma resolveSchema_primitive:
  "\<not> truthy schema \<or> \<not> typeof_object schema \<Longrightarrow> resolveSchema spec schema visited = Inr schema"
  by (subst resolveSchema.simps) auto

lemma resolveSchema_circular:
  assumes "own_prop schema ''$ref'' = Some (JStr p)" "p \<noteq> []" "p \<in> visited"
  shows "resolveSchema spec schema visited = Inr (circular_placeholder p)"
  using assms own_prop_Some_object[OF assms(1)]
  by (subst resolveSchema.simps) simp

lemma resolveSchema_ref:
  assumes "own_prop schema ''$ref'' = Some (JStr p)" "p \<noteq> []" "p \<notin> visited"
  shows "resolveSchema spec schema visited =
     (case resolveRef spec (JStr p) of
        Inl e \<Rightarrow> Inr schema
      | Inr resolved \<Rightarrow>
          (case resolveSchema spec
                  (JObj (assign (spread_entries resolved) (without_key ''$ref'' (own_entries schema))))
                  (insert p visited) of
             Inl e \<Rightarrow> Inr schema
           | Inr v \<Rightarrow> Inr v))"
  using assms own_prop_Some_object[OF assms(1)]
  by (subst resolveSchema.simps) (simp split: sum.splits)

lemma resolveRef_nonempty: "resolveRef spec (JStr p) = Inr v \<Longrightarrow> p \<noteq> []"
  by (auto simp: resolveRef_def startsWith_def split: if_splits)

lemma resolveSchema_bad_ref:
  assumes "own_prop schema ''$ref'' = Some ref" "truthy ref" "\<forall>p. ref \<noteq> JStr p"
  shows "resolveSchema spec schema visited = (if toString_throws ref then Inl TypeError else Inr schema)"
proof -
  have "resolveRef spec ref = Inl TypeError"
    using assms(3) by (cases ref) (simp_all add: resolveRef_def)
  moreover have "\<not> visited_has visited ref"
    using assms(3) by (cases ref) simp_all
  ultimately show ?thesis
    using assms(1,2) own_prop_Some_object[OF assms(1)]
    by (subst resolveSchema.simps) simp
qed

lemma resolveSchema_plain:
  assumes "truthy schema" "typeof_object schema" "\<not> carries_ref schema"
  shows "resolveSchema spec schema visited = resolve_nested (\<lambda>s. resolveSchema spec s visited) schema"
proof (cases "own_prop schema ''$ref''")
  case None
  with assms show ?thesis by (subst resolveSchema.simps) simp
next
  case (Some ref)
  with assms have "\<not> truthy ref" by (simp add: carries_ref_def)
  with assms Some show ?thesis by (subst resolveSchema.simps) simp
qed

text \<open>
  The nested fragments \<^verbatim>\<open>resolveSchema\<close> calls itself on, keyword by keyword, and the
  one shape it insists on: a truthy \<^verbatim>\<open>allOf\<close>, \<^verbatim>\<open>oneOf\<close> or \<^verbatim>\<open>anyOf\<close> must have a
  \<^verbatim>\<open>map\<close> method, which among JSON values only arrays have.
\<close>

definition called_props :: "json option \<Rightarrow> json list" where
  "called_props v = (case v of
      None \<Rightarrow> []
    | Some ps \<Rightarrow> if truthy ps then map snd (own_entries ps) else [])"

definition called_items :: "json option \<Rightarrow> json list" where
  "called_items v = (case v of
      None \<Rightarrow> []
    | Some items \<Rightarrow> if truthy items then (case items of JArr xs \<Rightarrow> xs | _ \<Rightarrow> [items]) else [])"

definition called_additional :: "json option \<Rightarrow> json list" where
  "called_additional v = (case v of
      None \<Rightarrow> []
    | Some ap \<Rightarrow> if truthy ap \<and> typeof_object ap then [ap] else [])"

definition called_members :: "json option \<Rightarrow> json list" where
  "called_members v = (case v of Some (JArr xs) \<Rightarrow> xs | _ \<Rightarrow> [])"

definition called_not :: "json option \<Rightarrow> json list" where
  "called_not v = (case v of None \<Rightarrow> [] | Some n \<Rightarrow> if truthy n then [n] else [])"

definition members_ok :: "json option \<Rightarrow> bool" where
  "members_ok v = (case v of
      None \<Rightarrow> True
    | Some ms \<Rightarrow> (case ms of JArr xs \<Rightarrow> True | _ \<Rightarrow> \<not> truthy ms))"

definition called :: "(string \<times> json) list \<Rightarrow> json list" where
  "called kvs =
     called_props (map_of kvs ''properties'') @ called_items (map_of kvs ''items'')
     @ called_additional (map_of kvs ''additionalProperties'')
     @ called_members (map_of kvs ''allOf'') @ called_members (map_of kvs ''oneOf'')
     @ called_members (map_of kvs ''anyOf'') @ called_not (map_of kvs ''not'')"

definition shape_ok :: "(string \<times> json) list \<Rightarrow> bool" where
  "shape_ok kvs = (members_ok (map_of kvs ''allOf'') \<and> members_ok (map_of kvs ''oneOf'')
                   \<and> members_ok (map_of kvs ''anyOf''))"

lemma returns_iff: "returns x \<longleftrightarrow> (\<exists>v. x = Inr v)"
  by (cases x) simp_all

lemma mapE_returns: "returns (mapE f xs) \<longleftrightarrow> list_all (\<lambda>x. returns (f x)) xs"
  by (induction xs) (auto simp: returns_iff split: sum.splits)

lemma then_step_returns: "returns (then_step a k) \<longleftrightarrow> (\<exists>v. a = Inr v \<and> returns (k v))"
  by (cases a) (simp_all add: then_step_def)

lemma mapE_entries_returns:
  "returns (mapE (\<lambda>(key, value). case f value of Inl e \<Rightarrow> Inl e | Inr v \<Rightarrow> Inr (key, v)) es)
     \<longleftrightarrow> list_all (\<lambda>c. returns (f c)) (map snd es)"
  by (induction es) (auto simp: returns_iff split: sum.splits)

lemma resolve_properties_returns:
  "returns (resolve_properties f r) \<longleftrightarrow>
     list_all (\<lambda>c. returns (f c)) (called_props (map_of r ''properties''))"
proof (cases "map_of r ''properties''")
  case None
  then show ?thesis by (simp add: resolve_properties_def called_props_def)
next
  case (Some ps)
  show ?thesis
  proof (cases "truthy ps")
    case False
    with Some show ?thesis by (simp add: resolve_properties_def called_props_def)
  next
    case True
    have "returns (resolve_properties f r) \<longleftrightarrow>
          returns (mapE (\<lambda>(key, value). case f value of Inl e \<Rightarrow> Inl e | Inr v \<Rightarrow> Inr (key, v))
                     (own_entries ps))"
      using Some True by (simp add: resolve_properties_def split: sum.splits)
    then show ?thesis
      using Some True by (simp add: mapE_entries_returns called_props_def)
  qed
qed

lemma resolve_items_returns:
  "returns (resolve_items f r) \<longleftrightarrow>
     list_all (\<lambda>c. returns (f c)) (called_items (map_of r ''items''))"
proof (cases "map_of r ''items''")
  case None
  then show ?thesis by (simp add: resolve_items_def called_items_def)
next
  case (Some items)
  show ?thesis
  proof (cases "truthy items")
    case False
    with Some show ?thesis by (simp add: resolve_items_def called_items_def)
  next
    case True
    show ?thesis
    proof (cases items)
      case (JArr xs)
      with Some True mapE_returns[of f xs] show ?thesis
        by (auto simp: resolve_items_def called_items_def returns_iff split: sum.splits)
    qed (use Some True in \<open>auto simp: resolve_items_def called_items_def returns_iff split: sum.splits\<close>)
  qed
qed

lemma resolve_additional_returns:
  "returns (resolve_additional f r) \<longleftrightarrow>
     list_all (\<lambda>c. returns (f c)) (called_additional (map_of r ''additionalProperties''))"
  by (auto simp: resolve_additional_def called_additional_def returns_iff
           split: option.splits sum.splits)

lemma resolve_not_returns:
  "returns (resolve_not f r) \<longleftrightarrow> list_all (\<lambda>c. returns (f c)) (called_not (map_of r ''not''))"
  by (auto simp: resolve_not_def called_not_def returns_iff split: option.splits sum.splits)

lemma resolve_members_returns:
  "returns (resolve_members key f r) \<longleftrightarrow>
     members_ok (map_of r key) \<and> list_all (\<lambda>c. returns (f c)) (called_members (map_of r key))"
proof (cases "map_of r key")
  case None
  then show ?thesis by (simp add: resolve_members_def called_members_def members_ok_def)
next
  case (Some ms)
  show ?thesis
  proof (cases ms)
    case (JArr xs)
    with Some mapE_returns[of f xs] show ?thesis
      by (auto simp: resolve_members_def called_members_def members_ok_def returns_iff
               split: sum.splits)
  qed (use Some in \<open>auto simp: resolve_members_def called_members_def members_ok_def\<close>)
qed

lemma resolve_nested_returns:
  "returns (resolve_nested f schema) \<longleftrightarrow>
     shape_ok (own_entries schema) \<and> list_all (\<lambda>c. returns (f c)) (called (own_entries schema))"
proof -
  let ?r0 = "own_entries schema"
  let ?ok = "\<lambda>c. returns (f c)"
  have step1: "returns (resolve_nested f schema) \<longleftrightarrow>
      (\<exists>r1 r2 r3 r4 r5 r6 r7.
          resolve_properties f ?r0 = Inr r1 \<and> resolve_items f r1 = Inr r2
        \<and> resolve_additional f r2 = Inr r3 \<and> resolve_members ''allOf'' f r3 = Inr r4
        \<and> resolve_members ''oneOf'' f r4 = Inr r5 \<and> resolve_members ''anyOf'' f r5 = Inr r6
        \<and> resolve_not f r6 = Inr r7)"
    unfolding resolve_nested_def then_step_returns by simp
  show ?thesis
  proof
    assume "returns (resolve_nested f schema)"
    then obtain r1 r2 r3 r4 r5 r6 r7 where
        s1: "resolve_properties f ?r0 = Inr r1" and s2: "resolve_items f r1 = Inr r2"
      and s3: "resolve_additional f r2 = Inr r3" and s4: "resolve_members ''allOf'' f r3 = Inr r4"
      and s5: "resolve_members ''oneOf'' f r4 = Inr r5" and s6: "resolve_members ''anyOf'' f r5 = Inr r6"
      and s7: "resolve_not f r6 = Inr r7"
      using step1 by blast
    have m1: "map_of r1 k = map_of ?r0 k" if "k \<noteq> ''properties''" for k
      using resolve_properties_other[OF s1 that] .
    have m2: "map_of r2 k = map_of ?r0 k" if "k \<noteq> ''properties''" "k \<noteq> ''items''" for k
      using resolve_items_other[OF s2 that(2)] m1[OF that(1)] by simp
    have m3: "map_of r3 k = map_of ?r0 k"
      if "k \<noteq> ''properties''" "k \<noteq> ''items''" "k \<noteq> ''additionalProperties''" for k
      using resolve_additional_other[OF s3 that(3)] m2[OF that(1,2)] by simp
    have m4: "map_of r4 k = map_of ?r0 k"
      if "k \<noteq> ''properties''" "k \<noteq> ''items''" "k \<noteq> ''additionalProperties''" "k \<noteq> ''allOf''" for k
      using resolve_members_other[OF s4 that(4)] m3[OF that(1,2,3)] by simp
    have m5: "map_of r5 k = map_of ?r0 k"
      if "k \<noteq> ''properties''" "k \<noteq> ''items''" "k \<noteq> ''additionalProperties''"
         "k \<noteq> ''allOf''" "k \<noteq> ''oneOf''" for k
      using resolve_members_other[OF s5 that(5)] m4[OF that(1,2,3,4)] by simp
    have m6: "map_of r6 ''not'' = map_of ?r0 ''not''"
      using resolve_members_other[OF s6, of "''not''"] m5[of "''not''"] by simp
    have a1: "list_all ?ok (called_props (map_of ?r0 ''properties''))"
      using s1 resolve_properties_returns[of f ?r0] by simp
    have a2: "list_all ?ok (called_items (map_of ?r0 ''items''))"
      using s2 resolve_items_returns[of f r1] m1[of "''items''"] by simp
    have a3: "list_all ?ok (called_additional (map_of ?r0 ''additionalProperties''))"
      using s3 resolve_additional_returns[of f r2] m2[of "''additionalProperties''"] by simp
    have a4: "members_ok (map_of ?r0 ''allOf'') \<and> list_all ?ok (called_members (map_of ?r0 ''allOf''))"
      using s4 resolve_members_returns[of "''allOf''" f r3] m3[of "''allOf''"] by simp
    have a5: "members_ok (map_of ?r0 ''oneOf'') \<and> list_all ?ok (called_members (map_of ?r0 ''oneOf''))"
      using s5 resolve_members_returns[of "''oneOf''" f r4] m4[of "''oneOf''"] by simp
    have a6: "members_ok (map_of ?r0 ''anyOf'') \<and> list_all ?ok (called_members (map_of ?r0 ''anyOf''))"
      using s6 resolve_members_returns[of "''anyOf''" f r5] m5[of "''anyOf''"] by simp
    have a7: "list_all ?ok (called_not (map_of ?r0 ''not''))"
      using s7 resolve_not_returns[of f r6] m6 by simp
    show "shape_ok ?r0 \<and> list_all ?ok (called ?r0)"
      using a1 a2 a3 a4 a5 a6 a7 by (simp add: shape_ok_def called_def)
  next
    assume A: "shape_ok ?r0 \<and> list_all ?ok (called ?r0)"
    then have a1: "list_all ?ok (called_props (map_of ?r0 ''properties''))"
      and a2: "list_all ?ok (called_items (map_of ?r0 ''items''))"
      and a3: "list_all ?ok (called_additional (map_of ?r0 ''additionalProperties''))"
      and a4: "members_ok (map_of ?r0 ''allOf'') \<and> list_all ?ok (called_members (map_of ?r0 ''allOf''))"
      and a5: "members_ok (map_of ?r0 ''oneOf'') \<and> list_all ?ok (called_members (map_of ?r0 ''oneOf''))"
      and a6: "members_ok (map_of ?r0 ''anyOf'') \<and> list_all ?ok (called_members (map_of ?r0 ''anyOf''))"
      and a7: "list_all ?ok (called_not (map_of ?r0 ''not''))"
      by (simp_all add: shape_ok_def called_def)
    from a1 obtain r1 where s1: "resolve_properties f ?r0 = Inr r1"
      using resolve_properties_returns[of f ?r0] by (auto simp: returns_iff)
    have m1: "map_of r1 k = map_of ?r0 k" if "k \<noteq> ''properties''" for k
      using resolve_properties_other[OF s1 that] .
    from a2 obtain r2 where s2: "resolve_items f r1 = Inr r2"
      using resolve_items_returns[of f r1] m1[of "''items''"] by (auto simp: returns_iff)
    have m2: "map_of r2 k = map_of ?r0 k" if "k \<noteq> ''properties''" "k \<noteq> ''items''" for k
      using resolve_items_other[OF s2 that(2)] m1[OF that(1)] by simp
    from a3 obtain r3 where s3: "resolve_additional f r2 = Inr r3"
      using resolve_additional_returns[of f r2] m2[of "''additionalProperties''"]
      by (auto simp: returns_iff)
    have m3: "map_of r3 k = map_of ?r0 k"
      if "k \<noteq> ''properties''" "k \<noteq> ''items''" "k \<noteq> ''additionalProperties''" for k
      using resolve_additional_other[OF s3 that(3)] m2[OF that(1,2)] by simp
    from a4 obtain r4 where s4: "resolve_members ''allOf'' f r3 = Inr r4"
      using resolve_members_returns[of "''allOf''" f r3] m3[of "''allOf''"]
      by (auto simp: returns_iff)
    have m4: "map_of r4 k = map_of ?r0 k"
      if "k \<noteq> ''properties''" "k \<noteq> ''items''" "k \<noteq> ''additionalProperties''" "k \<noteq> ''allOf''" for k
      using resolve_members_other[OF s4 that(4)] m3[OF that(1,2,3)] by simp
    from a5 obtain r5 where s5: "resolve_members ''oneOf'' f r4 = Inr r5"
      using resolve_members_returns[of "''oneOf''" f r4] m4[of "''oneOf''"]
      by (auto simp: returns_iff)
    have m5: "map_of r5 k = map_of ?r0 k"
      if "k \<noteq> ''properties''" "k \<noteq> ''items''" "k \<noteq> ''additionalProperties''"
         "k \<noteq> ''allOf''" "k \<noteq> ''oneOf''" for k
      using resolve_members_other[OF s5 that(5)] m4[OF that(1,2,3,4)] by simp
    from a6 obtain r6 where s6: "resolve_members ''anyOf'' f r5 = Inr r6"
      using resolve_members_returns[of "''anyOf''" f r5] m5[of "''anyOf''"]
      by (auto simp: returns_iff)
    have m6: "map_of r6 ''not'' = map_of ?r0 ''not''"
      using resolve_members_other[OF s6, of "''not''"] m5[of "''not''"] by simp
    from a7 obtain r7 where s7: "resolve_not f r6 = Inr r7"
      using resolve_not_returns[of f r6] m6 by (auto simp: returns_iff)
    show "returns (resolve_nested f schema)"
      unfolding step1 using s1 s2 s3 s4 s5 s6 s7 by blast
  qed
qed

lemma in_called_props:
  "c \<in> set (called_props v) \<Longrightarrow> \<exists>ps. v = Some ps \<and> c \<in> snd ` set (own_entries ps)"
  by (cases v) (simp_all add: called_props_def split: if_splits)

lemma in_called_items:
  assumes "c \<in> set (called_items v)"
  shows "\<exists>items. v = Some items \<and> (c = items \<or> (\<exists>xs. items = JArr xs \<and> c \<in> set xs))"
proof (cases v)
  case None
  with assms show ?thesis by (simp add: called_items_def)
next
  case (Some items)
  with assms show ?thesis
    by (cases items) (simp_all add: called_items_def split: if_splits)
qed

lemma in_called_additional: "c \<in> set (called_additional v) \<Longrightarrow> v = Some c"
  by (cases v) (simp_all add: called_additional_def split: if_splits)

lemma in_called_members:
  assumes "c \<in> set (called_members v)"
  shows "\<exists>xs. v = Some (JArr xs) \<and> c \<in> set xs"
proof (cases v)
  case None
  with assms show ?thesis by (simp add: called_members_def)
next
  case (Some ms)
  with assms show ?thesis
    by (cases ms) (simp_all add: called_members_def)
qed

lemma in_called_not: "c \<in> set (called_not v) \<Longrightarrow> v = Some c"
  by (cases v) (simp_all add: called_not_def split: if_splits)

lemma set_called_subset_kids: "set (called kvs) \<subseteq> kids kvs"
proof
  fix c assume "c \<in> set (called kvs)"
  then consider
      "c \<in> set (called_props (map_of kvs ''properties''))"
    | "c \<in> set (called_items (map_of kvs ''items''))"
    | "c \<in> set (called_additional (map_of kvs ''additionalProperties''))"
    | "c \<in> set (called_members (map_of kvs ''allOf''))"
    | "c \<in> set (called_members (map_of kvs ''oneOf''))"
    | "c \<in> set (called_members (map_of kvs ''anyOf''))"
    | "c \<in> set (called_not (map_of kvs ''not''))"
    by (auto simp: called_def)
  then show "c \<in> kids kvs"
  proof cases
    case 1
    from in_called_props[OF 1] obtain ps where
      "map_of kvs ''properties'' = Some ps" "c \<in> snd ` set (own_entries ps)" by blast
    then show ?thesis
      by (intro kidsI2[of "''properties''" kvs ps]) (simp_all add: nested_keys_def)
  next
    case 2
    from in_called_items[OF 2] obtain items where i: "map_of kvs ''items'' = Some items"
        and c: "c = items \<or> (\<exists>xs. items = JArr xs \<and> c \<in> set xs)" by blast
    from c show ?thesis
    proof
      assume "c = items"
      with i show ?thesis by (intro kidsI1[of "''items''"]) (simp_all add: nested_keys_def)
    next
      assume "\<exists>xs. items = JArr xs \<and> c \<in> set xs"
      then have "c \<in> snd ` set (own_entries items)" by (auto simp: snd_arr_entries)
      with i show ?thesis
        by (intro kidsI2[of "''items''" kvs items]) (simp_all add: nested_keys_def)
    qed
  next
    case 3
    from in_called_additional[OF 3] show ?thesis
      by (intro kidsI1[of "''additionalProperties''"]) (simp_all add: nested_keys_def)
  next
    case 4
    from in_called_members[OF 4] obtain xs where
      "map_of kvs ''allOf'' = Some (JArr xs)" "c \<in> set xs" by blast
    then show ?thesis
      by (intro kidsI2[of "''allOf''" kvs "JArr xs"]) (simp_all add: nested_keys_def snd_arr_entries)
  next
    case 5
    from in_called_members[OF 5] obtain xs where
      "map_of kvs ''oneOf'' = Some (JArr xs)" "c \<in> set xs" by blast
    then show ?thesis
      by (intro kidsI2[of "''oneOf''" kvs "JArr xs"]) (simp_all add: nested_keys_def snd_arr_entries)
  next
    case 6
    from in_called_members[OF 6] obtain xs where
      "map_of kvs ''anyOf'' = Some (JArr xs)" "c \<in> set xs" by blast
    then show ?thesis
      by (intro kidsI2[of "''anyOf''" kvs "JArr xs"]) (simp_all add: nested_keys_def snd_arr_entries)
  next
    case 7
    from in_called_not[OF 7] show ?thesis
      by (intro kidsI1[of "''not''"]) (simp_all add: nested_keys_def)
  qed
qed

text \<open>
  \<open>conforms\<close> follows the resolver down the nested keywords (never through a reference)
  and asks, at every fragment reached, for what the \<^verbatim>\<open>Schema\<close> interface prescribes
  there and the script relies on: the composition keywords hold arrays, and a
  \<^verbatim>\<open>$ref\<close> can be converted to text for the log line (a string always can).
\<close>

function conforms :: "json \<Rightarrow> bool" where
  "conforms schema =
     (if \<not> truthy schema \<or> \<not> typeof_object schema then True
      else if carries_ref schema then
        (case own_prop schema ''$ref'' of None \<Rightarrow> True | Some ref \<Rightarrow> \<not> toString_throws ref)
      else shape_ok (own_entries schema) \<and> list_all conforms (called (own_entries schema)))"
  by pat_completeness auto
termination
proof (relation "measure jsize")
  show "wf (measure jsize)" by simp
next
  fix schema c
  assume "\<not> (\<not> truthy schema \<or> \<not> typeof_object schema)" "c \<in> set (called (own_entries schema))"
  then have "truthy schema" "typeof_object schema" "c \<in> kids (own_entries schema)"
    using set_called_subset_kids by auto
  then have "jsize c < jsize schema" using kids_less by blast
  then show "(c, schema) \<in> measure jsize" by simp
qed

declare conforms.simps [simp del]

lemma resolveSchema_returns_iff:
  "returns (resolveSchema spec schema visited) \<longleftrightarrow> conforms schema"
proof (induction schema arbitrary: visited rule: conforms.induct)
  case (1 schema)
  show ?case
  proof (cases "\<not> truthy schema \<or> \<not> typeof_object schema")
    case True
    then show ?thesis
      by (subst conforms.simps) (simp add: resolveSchema_primitive)
  next
    case obj: False
    show ?thesis
    proof (cases "carries_ref schema")
      case True
      then obtain ref where ref: "own_prop schema ''$ref'' = Some ref" "truthy ref"
        by (auto simp: carries_ref_def split: option.splits)
      have c: "conforms schema \<longleftrightarrow> \<not> toString_throws ref"
        using obj True ref by (subst conforms.simps) simp
      show ?thesis
      proof (cases "\<exists>p. ref = JStr p")
        case True
        then obtain p where p: "ref = JStr p" by blast
        with ref have pne: "p \<noteq> []" by simp
        have "returns (resolveSchema spec schema visited)"
        proof (cases "p \<in> visited")
          case True
          then show ?thesis using resolveSchema_circular[of schema p visited spec] ref p pne by simp
        next
          case False
          then show ?thesis using resolveSchema_ref[of schema p visited spec] ref p pne
            by (simp split: sum.splits)
        qed
        then show ?thesis using c p by simp
      next
        case False
        then show ?thesis
          using resolveSchema_bad_ref[of schema ref spec visited] ref c by simp
      qed
    next
      case False
      have "returns (resolveSchema spec schema visited) \<longleftrightarrow>
            shape_ok (own_entries schema) \<and>
            list_all (\<lambda>c. returns (resolveSchema spec c visited)) (called (own_entries schema))"
        using obj False resolveSchema_plain[of schema spec visited]
        by (simp add: resolve_nested_returns)
      also have "list_all (\<lambda>c. returns (resolveSchema spec c visited)) (called (own_entries schema))
                 \<longleftrightarrow> list_all conforms (called (own_entries schema))"
        using 1[OF obj False] by (simp add: list_all_iff)
      finally have "returns (resolveSchema spec schema visited) \<longleftrightarrow>
            shape_ok (own_entries schema) \<and> list_all conforms (called (own_entries schema))" .
      moreover have "conforms schema \<longleftrightarrow>
            shape_ok (own_entries schema) \<and> list_all conforms (called (own_entries schema))"
        using obj False by (subst conforms.simps) simp
      ultimately show ?thesis by simp
    qed
  qed
qed

lemma map_of_assign:
  "distinct (map fst source) \<Longrightarrow>
   map_of (assign target source) k =
     (case map_of source k of Some v \<Rightarrow> Some v | None \<Rightarrow> map_of target k)"
  unfolding assign_def
proof (induction source arbitrary: target)
  case Nil
  then show ?case by simp
next
  case (Cons p ps)
  obtain k' v' where p: "p = (k', v')" by (cases p)
  from Cons.prems p have d: "distinct (map fst ps)" and nk: "k' \<notin> fst ` set ps" by auto
  from nk have none: "map_of ps k' = None" by (simp add: map_of_eq_None_iff)
  show ?case
    using Cons.IH[OF d, of "AList.update k' v' target"] p none
    by (auto simp: update_conv' split: option.splits)
qed

lemma map_of_without_key:
  "map_of (without_key k kvs) k' = (if k' = k then None else map_of kvs k')"
  unfolding without_key_def by (induction kvs) auto

lemma distinct_without_key: "distinct (map fst kvs) \<Longrightarrow> distinct (map fst (without_key k kvs))"
  unfolding without_key_def by (induction kvs) auto

lemma resolve_nested_steps:
  assumes "resolve_nested f schema = Inr res"
  obtains r1 r2 r3 r4 r5 r6 r7 where
    "resolve_properties f (own_entries schema) = Inr r1" "resolve_items f r1 = Inr r2"
    "resolve_additional f r2 = Inr r3" "resolve_members ''allOf'' f r3 = Inr r4"
    "resolve_members ''oneOf'' f r4 = Inr r5" "resolve_members ''anyOf'' f r5 = Inr r6"
    "resolve_not f r6 = Inr r7" "res = JObj r7"
  using assms unfolding resolve_nested_def then_step_def
  by (auto split: sum.splits)

lemma resolve_nested_untouched:
  assumes "resolve_nested f schema = Inr res" "k \<notin> set nested_keys"
  shows "own_prop res k = map_of (own_entries schema) k"
proof -
  from assms(1) obtain r1 r2 r3 r4 r5 r6 r7 where
      s: "resolve_properties f (own_entries schema) = Inr r1" "resolve_items f r1 = Inr r2"
      "resolve_additional f r2 = Inr r3" "resolve_members ''allOf'' f r3 = Inr r4"
      "resolve_members ''oneOf'' f r4 = Inr r5" "resolve_members ''anyOf'' f r5 = Inr r6"
      "resolve_not f r6 = Inr r7" and res: "res = JObj r7"
    by (rule resolve_nested_steps)
  from assms(2) have k: "k \<noteq> ''properties''" "k \<noteq> ''items''" "k \<noteq> ''additionalProperties''"
      "k \<noteq> ''allOf''" "k \<noteq> ''oneOf''" "k \<noteq> ''anyOf''" "k \<noteq> ''not''"
    by (auto simp: nested_keys_def)
  have "map_of r7 k = map_of (own_entries schema) k"
    using resolve_properties_other[OF s(1) k(1)] resolve_items_other[OF s(2) k(2)]
      resolve_additional_other[OF s(3) k(3)] resolve_members_other[OF s(4) k(4)]
      resolve_members_other[OF s(5) k(5)] resolve_members_other[OF s(6) k(6)]
      resolve_not_other[OF s(7) k(7)]
    by simp
  with res show ?thesis by simp
qed

lemma mapE_entries_list_all2:
  "mapE (\<lambda>(key, value). case f value of Inl e \<Rightarrow> Inl e | Inr v \<Rightarrow> Inr (key, v)) es = Inr es'
   \<Longrightarrow> list_all2 (\<lambda>(k, v) (k', v'). k' = k \<and> f v = Inr v') es es'"
  by (induction es arbitrary: es') (auto split: sum.splits)

lemma resolve_nested_properties:
  assumes "resolve_nested f schema = Inr res"
    and "map_of (own_entries schema) ''properties'' = Some ps" "truthy ps"
  shows "\<exists>es. own_prop res ''properties'' = Some (JObj es)
            \<and> list_all2 (\<lambda>(k, v) (k', v'). k' = k \<and> f v = Inr v') (own_entries ps) es"
proof -
  from assms(1) obtain r1 r2 r3 r4 r5 r6 r7 where
      s: "resolve_properties f (own_entries schema) = Inr r1" "resolve_items f r1 = Inr r2"
      "resolve_additional f r2 = Inr r3" "resolve_members ''allOf'' f r3 = Inr r4"
      "resolve_members ''oneOf'' f r4 = Inr r5" "resolve_members ''anyOf'' f r5 = Inr r6"
      "resolve_not f r6 = Inr r7" and res: "res = JObj r7"
    by (rule resolve_nested_steps)
  from s(1) assms(2,3) obtain es where
      es: "mapE (\<lambda>(key, value). case f value of Inl e \<Rightarrow> Inl e | Inr v \<Rightarrow> Inr (key, v))
             (own_entries ps) = Inr es"
      and r1: "r1 = AList.update ''properties'' (JObj es) (own_entries schema)"
    by (auto simp: resolve_properties_def split: sum.splits)
  have "map_of r1 ''properties'' = Some (JObj es)"
    using r1 by (simp add: update_conv')
  then have "map_of r7 ''properties'' = Some (JObj es)"
    using resolve_items_other[OF s(2), of "''properties''"]
      resolve_additional_other[OF s(3), of "''properties''"]
      resolve_members_other[OF s(4), of "''properties''"]
      resolve_members_other[OF s(5), of "''properties''"]
      resolve_members_other[OF s(6), of "''properties''"]
      resolve_not_other[OF s(7), of "''properties''"]
    by simp
  with res mapE_entries_list_all2[OF es] show ?thesis by auto
qed

lemma list_all2_map_of:
  assumes "list_all2 (\<lambda>(k, v) (k', v'). k' = k \<and> f v = Inr v') es es'"
    and "distinct (map fst es)" "map_of es a = Some v"
  shows "\<exists>v'. f v = Inr v' \<and> map_of es' a = Some v'"
  using assms
proof (induction es es' rule: list_all2_induct)
  case Nil
  then show ?case by simp
next
  case (Cons x xs y ys)
  obtain k w where x: "x = (k, w)" by (cases x)
  obtain k' w' where y: "y = (k', w')" by (cases y)
  from Cons.hyps(1) x y have kk: "k' = k" "f w = Inr w'" by auto
  show ?case
  proof (cases "a = k")
    case True
    with Cons.prems x have "v = w" by simp
    with True kk y show ?thesis by simp
  next
    case False
    with Cons.prems x have "distinct (map fst xs)" "map_of xs a = Some v" by auto
    from Cons.IH[OF this] False kk y show ?thesis by simp
  qed
qed

text \<open>
  Two small documents for the concrete runs: a schema \<^verbatim>\<open>Node\<close> whose property
  \<^verbatim>\<open>next\<close> refers back to \<^verbatim>\<open>Node\<close>, and a schema \<^verbatim>\<open>User\<close> with a description.
\<close>

abbreviation node_doc :: json where
  "node_doc \<equiv> JObj [(''openapi'', JStr ''3.0.0''),
     (''components'', JObj [(''schemas'', JObj [
        (''Node'', JObj [(''type'', JStr ''object''),
           (''properties'', JObj [(''next'', JObj [(''$ref'', JStr ''#/components/schemas/Node'')])])])])])]"

abbreviation user_doc :: json where
  "user_doc \<equiv> JObj [(''openapi'', JStr ''3.0.0''),
     (''components'', JObj [(''schemas'', JObj [
        (''User'', JObj [(''type'', JStr ''object''), (''description'', JStr ''A user''),
           (''properties'', JObj [(''name'', JObj [(''type'', JStr ''string'')])])])])])]"













text \<open>
  It also fails where the script slips: \<^verbatim>\<open>current[decodedSegment]\<close> is not limited to
  the properties the document has, so a pointer whose segment is missing from the
  document but names something every object inherits does arrive at a value. The
  schemas of \<open>user_doc\<close> hold no \<^verbatim>\<open>constructor\<close>, the walk ends at the function
  \<^verbatim>\<open>Object\<close>, the spread of a function adds nothing, and the fragment comes back
  without its \<^verbatim>\<open>$ref\<close>. The amended claim below leaves such pointers out.
\<close>

lemma inherited_member_resolves:
  "resolveRef user_doc (JStr ''#/components/schemas/constructor'') = Inr (Function ''Object'')
   \<and> resolveSchema user_doc
        (JObj [(''$ref'', JStr ''#/components/schemas/constructor''), (''description'', JStr ''kept'')]) {}
       = Inr (JObj [(''description'', JStr ''kept'')])"
  by code_simp



text \<open>
  Claim C5. A fragment with a reference and sibling keywords is resolved by merging the
  target's properties with the siblings, the siblings winning on every shared key, and
  by resolving the merged fragment with the pointer added to the path. A sibling under
  a key the resolver does not descend into (such as \<^verbatim>\<open>description\<close>) is found
  unchanged in the result when the merged fragment carries no further reference.
\<close>

theorem reference_siblings_override_target:
  assumes "own_prop schema ''$ref'' = Some (JStr p)" "p \<notin> visited"
    and "distinct (map fst (own_entries schema))"
    and "resolveRef spec (JStr p) = Inr resolved"
    and "merged = assign (spread_entries resolved) (without_key ''$ref'' (own_entries schema))"
  shows "(\<forall>k. map_of merged k =
            (if k \<noteq> ''$ref'' \<and> own_prop schema k \<noteq> None then own_prop schema k
             else map_of (spread_entries resolved) k))
       \<and> resolveSchema spec schema visited =
            (case resolveSchema spec (JObj merged) (insert p visited) of
               Inl e \<Rightarrow> Inr schema
             | Inr v \<Rightarrow> Inr v)
       \<and> (\<forall>k v. \<not> carries_ref (JObj merged) \<and> conforms (JObj merged)
                 \<and> k \<noteq> ''$ref'' \<and> k \<notin> set nested_keys \<and> own_prop schema k = Some v
             \<longrightarrow> (\<exists>res. resolveSchema spec schema visited = Inr res \<and> own_prop res k = Some v))"
proof (intro conjI allI impI)
  have obj: "own_prop schema k = map_of (own_entries schema) k" if "k \<noteq> ''length''" for k
    using assms(1) that by (cases schema) simp_all
  have len: "own_prop schema ''length'' = map_of (own_entries schema) ''length''"
  proof (cases schema)
    case (JArr xs)
    with assms(1) have "(''$ref'', JStr p) \<in> set (arr_entries xs)"
      by (auto dest: map_of_SomeD split: if_splits)
    then have "''$ref'' \<noteq> ''$ref''"
      unfolding arr_entries_def by (rule zip_index_keys_not_ref)
    then show ?thesis by simp
  qed (use assms(1) in simp_all)
  have gp: "own_prop schema k = map_of (own_entries schema) k" for k
    using obj len by (cases "k = ''length''") simp_all
  have d: "distinct (map fst (without_key ''$ref'' (own_entries schema)))"
    using assms(3) by (rule distinct_without_key)
  have pne: "p \<noteq> []" using assms(4) by (rule resolveRef_nonempty)
  show m: "map_of merged k =
            (if k \<noteq> ''$ref'' \<and> own_prop schema k \<noteq> None then own_prop schema k
             else map_of (spread_entries resolved) k)" for k
    unfolding assms(5) map_of_assign[OF d] map_of_without_key gp
    by (auto split: option.splits)
  show r: "resolveSchema spec schema visited =
            (case resolveSchema spec (JObj merged) (insert p visited) of
               Inl e \<Rightarrow> Inr schema
             | Inr v \<Rightarrow> Inr v)"
    using resolveSchema_ref[OF assms(1) pne assms(2), of spec] assms(4,5) by simp
  fix k v
  assume a: "\<not> carries_ref (JObj merged) \<and> conforms (JObj merged)
                 \<and> k \<noteq> ''$ref'' \<and> k \<notin> set nested_keys \<and> own_prop schema k = Some v"
  then have "returns (resolveSchema spec (JObj merged) (insert p visited))"
    by (simp add: resolveSchema_returns_iff)
  then obtain res where res: "resolveSchema spec (JObj merged) (insert p visited) = Inr res"
    by (auto simp: returns_iff)
  then have "resolve_nested (\<lambda>s. resolveSchema spec s (insert p visited)) (JObj merged) = Inr res"
    using a resolveSchema_plain[of "JObj merged" spec "insert p visited"] by simp
  then have "own_prop res k = map_of merged k"
    using a resolve_nested_untouched[of _ "JObj merged" res k] by simp
  also have "\<dots> = Some v" using m[of k] a by simp
  finally show "\<exists>res. resolveSchema spec schema visited = Inr res \<and> own_prop res k = Some v"
    using r res by simp
qed

theorem reference_siblings_override_target_witness:
  "resolveSchema user_doc
      (JObj [(''$ref'', JStr ''#/components/schemas/User''), (''description'', JStr ''override'')]) {}
     = Inr (JObj [(''type'', JStr ''object''), (''description'', JStr ''override''),
                  (''properties'', JObj [(''name'', JObj [(''type'', JStr ''string'')])])])"
proof -
  let ?schema = "JObj [(''$ref'', JStr ''#/components/schemas/User''), (''description'', JStr ''override'')]"
  let ?user = "JObj [(''type'', JStr ''object''), (''description'', JStr ''A user''),
           (''properties'', JObj [(''name'', JObj [(''type'', JStr ''string'')])])]"
  let ?merged = "[(''type'', JStr ''object''), (''description'', JStr ''override''),
           (''properties'', JObj [(''name'', JObj [(''type'', JStr ''string'')])])]"
  have rr: "resolveRef user_doc (JStr ''#/components/schemas/User'') = Inr (Data ?user)"
    by code_simp
  have mg: "?merged = assign (spread_entries (Data ?user)) (without_key ''$ref'' (own_entries ?schema))"
    by code_simp
  have inner: "resolveSchema user_doc (JObj ?merged) (insert ''#/components/schemas/User'' {})
        = Inr (JObj ?merged)"
    by code_simp
  from reference_siblings_override_target[of ?schema "''#/components/schemas/User''" "{}"
        user_doc "Data ?user" ?merged, OF _ _ _ rr mg]
  have "resolveSchema user_doc ?schema {} =
            (case resolveSchema user_doc (JObj ?merged) (insert ''#/components/schemas/User'' {}) of
               Inl e \<Rightarrow> Inr ?schema
             | Inr v \<Rightarrow> Inr v)"
    by simp
  with inner show ?thesis by simp
qed

text \<open>
  What each of the seven blocks leaves under its keyword: the resolutions, by the
  function it was handed, of the nested fragments found there, in the same places.
\<close>

lemma mapE_list_all2: "mapE f xs = Inr ys \<Longrightarrow> list_all2 (\<lambda>x y. f x = Inr y) xs ys"
  by (induction xs arbitrary: ys) (auto split: sum.splits)

lemma resolve_properties_value:
  assumes "resolve_properties f r = Inr r'" "map_of r ''properties'' = Some ps" "truthy ps"
  shows "\<exists>es. map_of r' ''properties'' = Some (JObj es)
            \<and> list_all2 (\<lambda>(k, v) (k', v'). k' = k \<and> f v = Inr v') (own_entries ps) es"
proof -
  from assms obtain es where
      es: "mapE (\<lambda>(key, value). case f value of Inl e \<Rightarrow> Inl e | Inr v \<Rightarrow> Inr (key, v))
             (own_entries ps) = Inr es"
      and r': "r' = AList.update ''properties'' (JObj es) r"
    by (auto simp: resolve_properties_def split: sum.splits)
  have "map_of r' ''properties'' = Some (JObj es)"
    using r' by (simp add: update_conv')
  with mapE_entries_list_all2[OF es] show ?thesis by blast
qed

lemma resolve_items_array:
  assumes "resolve_items f r = Inr r'" "map_of r ''items'' = Some (JArr xs)"
  shows "\<exists>ys. map_of r' ''items'' = Some (JArr ys) \<and> list_all2 (\<lambda>x y. f x = Inr y) xs ys"
proof -
  from assms obtain ys where ys: "mapE f xs = Inr ys"
      and r': "r' = AList.update ''items'' (JArr ys) r"
    by (auto simp: resolve_items_def split: sum.splits)
  have "map_of r' ''items'' = Some (JArr ys)"
    using r' by (simp add: update_conv')
  with mapE_list_all2[OF ys] show ?thesis by blast
qed

lemma resolve_items_single:
  assumes "resolve_items f r = Inr r'" "map_of r ''items'' = Some item" "truthy item"
    and "\<forall>xs. item \<noteq> JArr xs"
  shows "\<exists>y. map_of r' ''items'' = Some y \<and> f item = Inr y"
proof -
  from assms obtain y where y: "f item = Inr y" and r': "r' = AList.update ''items'' y r"
    by (cases item) (auto simp: resolve_items_def split: sum.splits)
  have "map_of r' ''items'' = Some y"
    using r' by (simp add: update_conv')
  with y show ?thesis by blast
qed

lemma resolve_additional_value:
  assumes "resolve_additional f r = Inr r'" "map_of r ''additionalProperties'' = Some ap"
    and "truthy ap" "typeof_object ap"
  shows "\<exists>y. map_of r' ''additionalProperties'' = Some y \<and> f ap = Inr y"
proof -
  from assms obtain y where y: "f ap = Inr y"
      and r': "r' = AList.update ''additionalProperties'' y r"
    by (auto simp: resolve_additional_def split: sum.splits)
  have "map_of r' ''additionalProperties'' = Some y"
    using r' by (simp add: update_conv')
  with y show ?thesis by blast
qed

lemma resolve_members_value:
  assumes "resolve_members key f r = Inr r'" "map_of r key = Some (JArr xs)"
  shows "\<exists>ys. map_of r' key = Some (JArr ys) \<and> list_all2 (\<lambda>x y. f x = Inr y) xs ys"
proof -
  from assms obtain ys where ys: "mapE f xs = Inr ys"
      and r': "r' = AList.update key (JArr ys) r"
    by (auto simp: resolve_members_def split: sum.splits)
  have "map_of r' key = Some (JArr ys)"
    using r' by (simp add: update_conv')
  with mapE_list_all2[OF ys] show ?thesis by blast
qed

lemma resolve_not_value:
  assumes "resolve_not f r = Inr r'" "map_of r ''not'' = Some n" "truthy n"
  shows "\<exists>y. map_of r' ''not'' = Some y \<and> f n = Inr y"
proof -
  from assms obtain y where y: "f n = Inr y" and r': "r' = AList.update ''not'' y r"
    by (auto simp: resolve_not_def split: sum.splits)
  have "map_of r' ''not'' = Some y"
    using r' by (simp add: update_conv')
  with y show ?thesis by blast
qed

lemma resolve_nested_branches:
  assumes run: "resolve_nested f schema = Inr res"
  shows "(\<forall>ps. map_of (own_entries schema) ''properties'' = Some ps \<and> truthy ps \<longrightarrow>
            (\<exists>es. own_prop res ''properties'' = Some (JObj es)
               \<and> list_all2 (\<lambda>(k, v) (k', v'). k' = k \<and> f v = Inr v') (own_entries ps) es))"
    and "(\<forall>xs. map_of (own_entries schema) ''items'' = Some (JArr xs) \<longrightarrow>
            (\<exists>ys. own_prop res ''items'' = Some (JArr ys) \<and> list_all2 (\<lambda>x y. f x = Inr y) xs ys))"
    and "(\<forall>item. map_of (own_entries schema) ''items'' = Some item \<and> truthy item
                 \<and> (\<forall>xs. item \<noteq> JArr xs) \<longrightarrow>
            (\<exists>y. own_prop res ''items'' = Some y \<and> f item = Inr y))"
    and "(\<forall>ap. map_of (own_entries schema) ''additionalProperties'' = Some ap \<and> truthy ap
               \<and> typeof_object ap \<longrightarrow>
            (\<exists>y. own_prop res ''additionalProperties'' = Some y \<and> f ap = Inr y))"
    and "(\<forall>key xs. key \<in> {''allOf'', ''oneOf'', ''anyOf''}
                 \<and> map_of (own_entries schema) key = Some (JArr xs) \<longrightarrow>
            (\<exists>ys. own_prop res key = Some (JArr ys) \<and> list_all2 (\<lambda>x y. f x = Inr y) xs ys))"
    and "(\<forall>n. map_of (own_entries schema) ''not'' = Some n \<and> truthy n \<longrightarrow>
            (\<exists>y. own_prop res ''not'' = Some y \<and> f n = Inr y))"
proof -
  let ?r0 = "own_entries schema"
  from run obtain r1 r2 r3 r4 r5 r6 r7 where
      s1: "resolve_properties f ?r0 = Inr r1" and s2: "resolve_items f r1 = Inr r2"
      and s3: "resolve_additional f r2 = Inr r3" and s4: "resolve_members ''allOf'' f r3 = Inr r4"
      and s5: "resolve_members ''oneOf'' f r4 = Inr r5" and s6: "resolve_members ''anyOf'' f r5 = Inr r6"
      and s7: "resolve_not f r6 = Inr r7" and res: "res = JObj r7"
    by (rule resolve_nested_steps)
  note o1 = resolve_properties_other[OF s1] and o2 = resolve_items_other[OF s2]
    and o3 = resolve_additional_other[OF s3] and o4 = resolve_members_other[OF s4]
    and o5 = resolve_members_other[OF s5] and o6 = resolve_members_other[OF s6]
    and o7 = resolve_not_other[OF s7]
  have final: "own_prop res k = map_of r7 k" for k using res by simp
  show "\<forall>ps. map_of ?r0 ''properties'' = Some ps \<and> truthy ps \<longrightarrow>
            (\<exists>es. own_prop res ''properties'' = Some (JObj es)
               \<and> list_all2 (\<lambda>(k, v) (k', v'). k' = k \<and> f v = Inr v') (own_entries ps) es)"
  proof (intro allI impI)
    fix ps assume "map_of ?r0 ''properties'' = Some ps \<and> truthy ps"
    then obtain es where "map_of r1 ''properties'' = Some (JObj es)"
        and l: "list_all2 (\<lambda>(k, v) (k', v'). k' = k \<and> f v = Inr v') (own_entries ps) es"
      using resolve_properties_value[OF s1] by blast
    then have "map_of r7 ''properties'' = Some (JObj es)"
      using o2[of "''properties''"] o3[of "''properties''"] o4[of "''properties''"]
        o5[of "''properties''"] o6[of "''properties''"] o7[of "''properties''"] by simp
    with l final show "\<exists>es. own_prop res ''properties'' = Some (JObj es)
               \<and> list_all2 (\<lambda>(k, v) (k', v'). k' = k \<and> f v = Inr v') (own_entries ps) es"
      by auto
  qed
  have i1: "map_of r1 ''items'' = map_of ?r0 ''items''" using o1[of "''items''"] by simp
  have keep_items: "map_of r7 ''items'' = map_of r2 ''items''"
    using o3[of "''items''"] o4[of "''items''"] o5[of "''items''"] o6[of "''items''"]
      o7[of "''items''"] by simp
  show "\<forall>xs. map_of ?r0 ''items'' = Some (JArr xs) \<longrightarrow>
            (\<exists>ys. own_prop res ''items'' = Some (JArr ys) \<and> list_all2 (\<lambda>x y. f x = Inr y) xs ys)"
  proof (intro allI impI)
    fix xs assume "map_of ?r0 ''items'' = Some (JArr xs)"
    then have "map_of r1 ''items'' = Some (JArr xs)" using i1 by simp
    from resolve_items_array[OF s2 this] keep_items final
    show "\<exists>ys. own_prop res ''items'' = Some (JArr ys) \<and> list_all2 (\<lambda>x y. f x = Inr y) xs ys"
      by auto
  qed
  show "\<forall>item. map_of ?r0 ''items'' = Some item \<and> truthy item \<and> (\<forall>xs. item \<noteq> JArr xs) \<longrightarrow>
            (\<exists>y. own_prop res ''items'' = Some y \<and> f item = Inr y)"
  proof (intro allI impI)
    fix item assume a: "map_of ?r0 ''items'' = Some item \<and> truthy item \<and> (\<forall>xs. item \<noteq> JArr xs)"
    then have "map_of r1 ''items'' = Some item" using i1 by simp
    from resolve_items_single[OF s2 this] a keep_items final
    show "\<exists>y. own_prop res ''items'' = Some y \<and> f item = Inr y" by auto
  qed
  show "\<forall>ap. map_of ?r0 ''additionalProperties'' = Some ap \<and> truthy ap \<and> typeof_object ap \<longrightarrow>
            (\<exists>y. own_prop res ''additionalProperties'' = Some y \<and> f ap = Inr y)"
  proof (intro allI impI)
    fix ap assume a: "map_of ?r0 ''additionalProperties'' = Some ap \<and> truthy ap \<and> typeof_object ap"
    then have "map_of r2 ''additionalProperties'' = Some ap"
      using o1[of "''additionalProperties''"] o2[of "''additionalProperties''"] by simp
    from resolve_additional_value[OF s3 this] a obtain y where
        "map_of r3 ''additionalProperties'' = Some y" and y: "f ap = Inr y" by blast
    then have "map_of r7 ''additionalProperties'' = Some y"
      using o4[of "''additionalProperties''"] o5[of "''additionalProperties''"]
        o6[of "''additionalProperties''"] o7[of "''additionalProperties''"] by simp
    with y final show "\<exists>y. own_prop res ''additionalProperties'' = Some y \<and> f ap = Inr y"
      by auto
  qed
  show "\<forall>key xs. key \<in> {''allOf'', ''oneOf'', ''anyOf''}
                 \<and> map_of ?r0 key = Some (JArr xs) \<longrightarrow>
            (\<exists>ys. own_prop res key = Some (JArr ys) \<and> list_all2 (\<lambda>x y. f x = Inr y) xs ys)"
  proof (intro allI impI)
    fix key xs
    assume a: "key \<in> {''allOf'', ''oneOf'', ''anyOf''} \<and> map_of ?r0 key = Some (JArr xs)"
    then consider "key = ''allOf''" | "key = ''oneOf''" | "key = ''anyOf''" by blast
    then show "\<exists>ys. own_prop res key = Some (JArr ys) \<and> list_all2 (\<lambda>x y. f x = Inr y) xs ys"
    proof cases
      case 1
      with a have "map_of r3 ''allOf'' = Some (JArr xs)"
        using o1[of "''allOf''"] o2[of "''allOf''"] o3[of "''allOf''"] by simp
      from resolve_members_value[OF s4 this] obtain ys where
          "map_of r4 ''allOf'' = Some (JArr ys)" and l: "list_all2 (\<lambda>x y. f x = Inr y) xs ys"
        by blast
      then have "map_of r7 ''allOf'' = Some (JArr ys)"
        using o5[of "''allOf''"] o6[of "''allOf''"] o7[of "''allOf''"] by simp
      with l final 1 show ?thesis by auto
    next
      case 2
      with a have "map_of r4 ''oneOf'' = Some (JArr xs)"
        using o1[of "''oneOf''"] o2[of "''oneOf''"] o3[of "''oneOf''"] o4[of "''oneOf''"] by simp
      from resolve_members_value[OF s5 this] obtain ys where
          "map_of r5 ''oneOf'' = Some (JArr ys)" and l: "list_all2 (\<lambda>x y. f x = Inr y) xs ys"
        by blast
      then have "map_of r7 ''oneOf'' = Some (JArr ys)"
        using o6[of "''oneOf''"] o7[of "''oneOf''"] by simp
      with l final 2 show ?thesis by auto
    next
      case 3
      with a have "map_of r5 ''anyOf'' = Some (JArr xs)"
        using o1[of "''anyOf''"] o2[of "''anyOf''"] o3[of "''anyOf''"] o4[of "''anyOf''"]
          o5[of "''anyOf''"] by simp
      from resolve_members_value[OF s6 this] obtain ys where
          "map_of r6 ''anyOf'' = Some (JArr ys)" and l: "list_all2 (\<lambda>x y. f x = Inr y) xs ys"
        by blast
      then have "map_of r7 ''anyOf'' = Some (JArr ys)"
        using o7[of "''anyOf''"] by simp
      with l final 3 show ?thesis by auto
    qed
  qed
  show "\<forall>n. map_of ?r0 ''not'' = Some n \<and> truthy n \<longrightarrow>
            (\<exists>y. own_prop res ''not'' = Some y \<and> f n = Inr y)"
  proof (intro allI impI)
    fix n assume a: "map_of ?r0 ''not'' = Some n \<and> truthy n"
    then have "map_of r6 ''not'' = Some n"
      using o1[of "''not''"] o2[of "''not''"] o3[of "''not''"] o4[of "''not''"]
        o5[of "''not''"] o6[of "''not''"] by simp
    from resolve_not_value[OF s7 this] a final
    show "\<exists>y. own_prop res ''not'' = Some y \<and> f n = Inr y" by auto
  qed
qed

text \<open>
  A fragment that refers to \<^verbatim>\<open>Node\<close>, what it resolves to at the top of a call, and a
  fragment with such a reference in every kind of branch, with its resolution.
\<close>

abbreviation node_ref :: json where
  "node_ref \<equiv> JObj [(''$ref'', JStr ''#/components/schemas/Node'')]"

abbreviation node_expansion :: json where
  "node_expansion \<equiv>
     JObj [(''type'', JStr ''object''),
           (''properties'', JObj [(''next'',
              JObj [(''description'', JStr ''Circular reference: #/components/schemas/Node''),
                    (''type'', JStr ''object'')])])]"

abbreviation branches_fragment :: json where
  "branches_fragment \<equiv>
     JObj [(''type'', JStr ''object''),
           (''properties'', JObj [(''left'', node_ref), (''right'', node_ref)]),
           (''items'', node_ref),
           (''additionalProperties'', node_ref),
           (''allOf'', JArr [node_ref, node_ref]),
           (''oneOf'', JArr [node_ref]),
           (''anyOf'', JArr [node_ref]),
           (''not'', node_ref)]"

abbreviation branches_result :: json where
  "branches_result \<equiv>
     JObj [(''type'', JStr ''object''),
           (''properties'', JObj [(''left'', node_expansion), (''right'', node_expansion)]),
           (''items'', node_expansion),
           (''additionalProperties'', node_expansion),
           (''allOf'', JArr [node_expansion, node_expansion]),
           (''oneOf'', JArr [node_expansion]),
           (''anyOf'', JArr [node_expansion]),
           (''not'', node_expansion)]"

text \<open>
  Claim C4. In a fragment without a reference of its own, every nested fragment, under
  whichever keyword it stands (an entry of \<^verbatim>\<open>properties\<close>, \<^verbatim>\<open>items\<close> or a member of
  it, \<^verbatim>\<open>additionalProperties\<close>, a member of \<^verbatim>\<open>allOf\<close>, \<^verbatim>\<open>oneOf\<close> or \<^verbatim>\<open>anyOf\<close>,
  \<^verbatim>\<open>not\<close>), is replaced by its own resolution with the visited set of the parent:
  what one branch adds to its set on the way down is not seen by any other. A
  reference, on the other hand, is resolved with its pointer added to the set. So two
  properties that refer to the same target both resolve to the target's expansion.
\<close>

theorem sibling_branches_resolved_independently:
  assumes "truthy schema" "typeof_object schema" "\<not> carries_ref schema"
    and "resolveSchema spec schema visited = Inr res"
  shows "resolveSchema spec schema visited
           = resolve_nested (\<lambda>s. resolveSchema spec s visited) schema
       \<and> (\<forall>ps. map_of (own_entries schema) ''properties'' = Some ps \<and> truthy ps \<longrightarrow>
            (\<exists>es. own_prop res ''properties'' = Some (JObj es)
               \<and> list_all2 (\<lambda>(k, v) (k', v'). k' = k \<and> resolveSchema spec v visited = Inr v')
                    (own_entries ps) es))
       \<and> (\<forall>xs. map_of (own_entries schema) ''items'' = Some (JArr xs) \<longrightarrow>
            (\<exists>ys. own_prop res ''items'' = Some (JArr ys)
               \<and> list_all2 (\<lambda>x y. resolveSchema spec x visited = Inr y) xs ys))
       \<and> (\<forall>item. map_of (own_entries schema) ''items'' = Some item \<and> truthy item
                 \<and> (\<forall>xs. item \<noteq> JArr xs) \<longrightarrow>
            (\<exists>y. own_prop res ''items'' = Some y \<and> resolveSchema spec item visited = Inr y))
       \<and> (\<forall>ap. map_of (own_entries schema) ''additionalProperties'' = Some ap \<and> truthy ap
               \<and> typeof_object ap \<longrightarrow>
            (\<exists>y. own_prop res ''additionalProperties'' = Some y
               \<and> resolveSchema spec ap visited = Inr y))
       \<and> (\<forall>key xs. key \<in> {''allOf'', ''oneOf'', ''anyOf''}
                 \<and> map_of (own_entries schema) key = Some (JArr xs) \<longrightarrow>
            (\<exists>ys. own_prop res key = Some (JArr ys)
               \<and> list_all2 (\<lambda>x y. resolveSchema spec x visited = Inr y) xs ys))
       \<and> (\<forall>n. map_of (own_entries schema) ''not'' = Some n \<and> truthy n \<longrightarrow>
            (\<exists>y. own_prop res ''not'' = Some y \<and> resolveSchema spec n visited = Inr y))
       \<and> (\<forall>p target expansion.
             p \<notin> visited \<and> resolveRef spec (JStr p) = Inr target
             \<and> resolveSchema spec (JObj (spread_entries target)) (insert p visited) = Inr expansion \<longrightarrow>
             resolveSchema spec (JObj [(''$ref'', JStr p)]) visited
               = resolveSchema spec (JObj (spread_entries target)) (insert p visited)
             \<and> (\<forall>ps a b. map_of (own_entries schema) ''properties'' = Some (JObj ps)
                     \<and> distinct (map fst ps)
                     \<and> map_of ps a = Some (JObj [(''$ref'', JStr p)])
                     \<and> map_of ps b = Some (JObj [(''$ref'', JStr p)]) \<longrightarrow>
                  (\<exists>es. own_prop res ''properties'' = Some (JObj es)
                     \<and> map_of es a = Some expansion \<and> map_of es b = Some expansion)))"
proof -
  let ?f = "\<lambda>s. resolveSchema spec s visited"
  have plain: "resolveSchema spec schema visited = resolve_nested ?f schema"
    using assms(1,2,3) by (rule resolveSchema_plain)
  then have run: "resolve_nested ?f schema = Inr res" using assms(4) by simp
  note br = resolve_nested_branches[OF run]
  have chain: "?f (JObj [(''$ref'', JStr p)])
                 = resolveSchema spec (JObj (spread_entries target)) (insert p visited)
             \<and> (\<forall>ps a b. map_of (own_entries schema) ''properties'' = Some (JObj ps)
                     \<and> distinct (map fst ps)
                     \<and> map_of ps a = Some (JObj [(''$ref'', JStr p)])
                     \<and> map_of ps b = Some (JObj [(''$ref'', JStr p)]) \<longrightarrow>
                  (\<exists>es. own_prop res ''properties'' = Some (JObj es)
                     \<and> map_of es a = Some expansion \<and> map_of es b = Some expansion))"
    if h: "p \<notin> visited \<and> resolveRef spec (JStr p) = Inr target
             \<and> resolveSchema spec (JObj (spread_entries target)) (insert p visited) = Inr expansion"
    for p target expansion
  proof -
    let ?ref = "JObj [(''$ref'', JStr p)]"
    have "assign (spread_entries target) (without_key ''$ref'' (own_entries ?ref))
            = spread_entries target"
      by (simp add: assign_def without_key_def)
    then have ref: "?f ?ref = Inr expansion"
      using resolveSchema_ref[of ?ref p visited spec] resolveRef_nonempty[of spec p target] h
      by simp
    have sib: "\<exists>es. own_prop res ''properties'' = Some (JObj es)
                     \<and> map_of es a = Some expansion \<and> map_of es b = Some expansion"
      if s: "map_of (own_entries schema) ''properties'' = Some (JObj ps) \<and> distinct (map fst ps)
                     \<and> map_of ps a = Some ?ref \<and> map_of ps b = Some ?ref" for ps a b
    proof -
      from br(1) s obtain es where es: "own_prop res ''properties'' = Some (JObj es)"
          and l: "list_all2 (\<lambda>(k, v) (k', v'). k' = k \<and> ?f v = Inr v') ps es"
        by auto
      from s have d: "distinct (map fst ps)" and ma: "map_of ps a = Some ?ref"
        and mb: "map_of ps b = Some ?ref" by simp_all
      from list_all2_map_of[OF l d ma] ref have "map_of es a = Some expansion" by auto
      moreover from list_all2_map_of[OF l d mb] ref have "map_of es b = Some expansion" by auto
      ultimately show ?thesis using es by blast
    qed
    have "?f ?ref = resolveSchema spec (JObj (spread_entries target)) (insert p visited)"
      using ref h by simp
    with sib show ?thesis by blast
  qed
  from plain br chain show ?thesis by blast
qed

theorem sibling_branches_resolved_independently_witness:
  "resolveSchema node_doc branches_fragment {} = Inr branches_result
   \<and> resolveSchema node_doc node_ref {} = Inr node_expansion
   \<and> (\<exists>es. own_prop branches_result ''properties'' = Some (JObj es)
         \<and> map_of es ''left'' = Some node_expansion \<and> map_of es ''right'' = Some node_expansion)
   \<and> (\<exists>y. own_prop branches_result ''items'' = Some y
         \<and> resolveSchema node_doc node_ref {} = Inr y)
   \<and> (\<exists>y. own_prop branches_result ''additionalProperties'' = Some y
         \<and> resolveSchema node_doc node_ref {} = Inr y)
   \<and> (\<exists>ys. own_prop branches_result ''allOf'' = Some (JArr ys)
         \<and> list_all2 (\<lambda>x y. resolveSchema node_doc x {} = Inr y) [node_ref, node_ref] ys)
   \<and> (\<exists>ys. own_prop branches_result ''oneOf'' = Some (JArr ys)
         \<and> list_all2 (\<lambda>x y. resolveSchema node_doc x {} = Inr y) [node_ref] ys)
   \<and> (\<exists>ys. own_prop branches_result ''anyOf'' = Some (JArr ys)
         \<and> list_all2 (\<lambda>x y. resolveSchema node_doc x {} = Inr y) [node_ref] ys)
   \<and> (\<exists>y. own_prop branches_result ''not'' = Some y
         \<and> resolveSchema node_doc node_ref {} = Inr y)
   \<and> (\<exists>ys. own_prop (JObj [(''items'', JArr [node_expansion, node_expansion])]) ''items''
               = Some (JArr ys)
         \<and> list_all2 (\<lambda>x y. resolveSchema node_doc x {} = Inr y) [node_ref, node_ref] ys)"
proof -
  let ?node = "JObj [(''type'', JStr ''object''), (''properties'', JObj [(''next'', node_ref)])]"
  let ?tuple = "JObj [(''items'', JArr [node_ref, node_ref])]"
  let ?tuple_res = "JObj [(''items'', JArr [node_expansion, node_expansion])]"
  have nr: "\<not> carries_ref branches_fragment" by (simp add: carries_ref_def)
  have nt: "\<not> carries_ref ?tuple" by (simp add: carries_ref_def)
  have rr: "resolveRef node_doc (JStr ''#/components/schemas/Node'') = Inr (Data ?node)"
    by code_simp
  have ex: "resolveSchema node_doc (JObj (spread_entries (Data ?node)))
               (insert ''#/components/schemas/Node'' {}) = Inr node_expansion"
    by code_simp
  have whole: "resolveSchema node_doc branches_fragment {} = Inr branches_result"
    by code_simp
  have tuple: "resolveSchema node_doc ?tuple {} = Inr ?tuple_res"
    by code_simp
  have tr: "truthy branches_fragment" and ty: "typeof_object branches_fragment"
    by simp_all
  note t = sibling_branches_resolved_independently[of branches_fragment node_doc "{}"
             branches_result, OF tr ty nr whole]
  note t2 = t[THEN conjunct2]
  note t3 = t2[THEN conjunct2]
  note t4 = t3[THEN conjunct2]
  note t5 = t4[THEN conjunct2]
  note t6 = t5[THEN conjunct2]
  note t7 = t6[THEN conjunct2]
  note t8 = t7[THEN conjunct2]
  have pv: "''#/components/schemas/Node'' \<notin> ({} :: string set)" by simp
  from t8[rule_format, of "''#/components/schemas/Node''" "Data ?node" node_expansion] pv rr ex
  have c1: "resolveSchema node_doc node_ref {}
               = resolveSchema node_doc (JObj (spread_entries (Data ?node)))
                   (insert ''#/components/schemas/Node'' {})"
    and c2: "\<forall>ps a b. map_of (own_entries branches_fragment) ''properties'' = Some (JObj ps)
                     \<and> distinct (map fst ps)
                     \<and> map_of ps a = Some node_ref \<and> map_of ps b = Some node_ref \<longrightarrow>
                  (\<exists>es. own_prop branches_result ''properties'' = Some (JObj es)
                     \<and> map_of es a = Some node_expansion \<and> map_of es b = Some node_expansion)"
    by blast+
  from c1 ex have refrun: "resolveSchema node_doc node_ref {} = Inr node_expansion" by simp
  from c2[rule_format, of "[(''left'', node_ref), (''right'', node_ref)]" "''left''" "''right''"]
  have props: "\<exists>es. own_prop branches_result ''properties'' = Some (JObj es)
                 \<and> map_of es ''left'' = Some node_expansion \<and> map_of es ''right'' = Some node_expansion"
    by simp
  from t4[THEN conjunct1, rule_format, of node_ref]
  have items: "\<exists>y. own_prop branches_result ''items'' = Some y
                  \<and> resolveSchema node_doc node_ref {} = Inr y"
    by simp
  from t5[THEN conjunct1, rule_format, of node_ref]
  have additional: "\<exists>y. own_prop branches_result ''additionalProperties'' = Some y
                  \<and> resolveSchema node_doc node_ref {} = Inr y"
    by simp
  from t6[THEN conjunct1, rule_format, of "''allOf''" "[node_ref, node_ref]"]
  have all_of: "\<exists>ys. own_prop branches_result ''allOf'' = Some (JArr ys)
         \<and> list_all2 (\<lambda>x y. resolveSchema node_doc x {} = Inr y) [node_ref, node_ref] ys"
    by simp
  from t6[THEN conjunct1, rule_format, of "''oneOf''" "[node_ref]"]
  have one_of: "\<exists>ys. own_prop branches_result ''oneOf'' = Some (JArr ys)
         \<and> list_all2 (\<lambda>x y. resolveSchema node_doc x {} = Inr y) [node_ref] ys"
    by simp
  from t6[THEN conjunct1, rule_format, of "''anyOf''" "[node_ref]"]
  have any_of: "\<exists>ys. own_prop branches_result ''anyOf'' = Some (JArr ys)
         \<and> list_all2 (\<lambda>x y. resolveSchema node_doc x {} = Inr y) [node_ref] ys"
    by simp
  from t7[THEN conjunct1, rule_format, of node_ref]
  have neg: "\<exists>y. own_prop branches_result ''not'' = Some y
                  \<and> resolveSchema node_doc node_ref {} = Inr y"
    by simp
  have tt: "truthy ?tuple" and yt: "typeof_object ?tuple" by simp_all
  note u = sibling_branches_resolved_independently[of ?tuple node_doc "{}" ?tuple_res,
             OF tt yt nt tuple]
  from u[THEN conjunct2, THEN conjunct2, THEN conjunct1, rule_format, of "[node_ref, node_ref]"]
  have tup: "\<exists>ys. own_prop ?tuple_res ''items'' = Some (JArr ys)
         \<and> list_all2 (\<lambda>x y. resolveSchema node_doc x {} = Inr y) [node_ref, node_ref] ys"
    by simp
  from whole refrun props items additional all_of one_of any_of neg tup
  show ?thesis by blast
qed

section \<open>Version detection and the normalized view\<close>

text \<open>
  \<^verbatim>\<open>detectVersion\<close> tests \<^verbatim>\<open>"swagger" in spec && spec.swagger === "2.0"\<close>, then
  \<^verbatim>\<open>"openapi" in spec\<close>, and throws otherwise. The \<^verbatim>\<open>in\<close> operator itself throws a
  \<^verbatim>\<open>TypeError\<close> when its right operand is not an object (a document that arrived as
  text, a number, \<^verbatim>\<open>null\<close>); on an object it looks along the prototype chain, where
  neither of the two names is found.
\<close>

datatype version = V2 | V3

fun has_in :: "string \<Rightarrow> json \<Rightarrow> error + bool" where
  "has_in k (JObj kvs) = Inr (get_prop (Data (JObj kvs)) k \<noteq> None)"
| "has_in k (JArr xs) = Inr (get_prop (Data (JArr xs)) k \<noteq> None)"
| "has_in k _ = Inl TypeError"

definition detectVersion :: "json \<Rightarrow> error + version" where
  "detectVersion spec =
     (case has_in ''swagger'' spec of
        Inl e \<Rightarrow> Inl e
      | Inr has_swagger \<Rightarrow>
          if has_swagger \<and> own_prop spec ''swagger'' = Some (JStr ''2.0'') then Inr V2
          else
            (case has_in ''openapi'' spec of
               Inl e \<Rightarrow> Inl e
             | Inr has_openapi \<Rightarrow> if has_openapi then Inr V3 else Inl UnknownVersion))"

text \<open>
  Member reads as \<^verbatim>\<open>normalizeSpec\<close> performs them: \<^verbatim>\<open>a?.b\<close> gives
  \<^verbatim>\<open>undefined\<close> on a missing or null receiver, \<^verbatim>\<open>a.b\<close> throws there. A template
  literal converts each part to text; the conversion throws exactly when
  \<open>toString_throws\<close> holds, and the text it gives otherwise for a value that is not a
  string is the run time's business, taken as the parameter \<open>text_of\<close>.
\<close>

fun optional_member :: "json option \<Rightarrow> string \<Rightarrow> json option" where
  "optional_member None k = None"
| "optional_member (Some JNull) k = None"
| "optional_member (Some (JStr s)) k =
     (if k = ''length'' then Some (JNum (of_nat (length s)))
      else map_of (own_entries (JStr s)) k)"
| "optional_member (Some v) k = own_prop v k"

fun member_of :: "json option \<Rightarrow> string \<Rightarrow> error + json option" where
  "member_of None k = Inl TypeError"
| "member_of (Some JNull) k = Inl TypeError"
| "member_of (Some v) k = Inr (optional_member (Some v) k)"

definition or_else :: "json option \<Rightarrow> json \<Rightarrow> json" where
  "or_else v d = (case v of Some x \<Rightarrow> if truthy x then x else d | None \<Rightarrow> d)"

definition template_part :: "(json \<Rightarrow> string) \<Rightarrow> json \<Rightarrow> error + string" where
  "template_part text_of v = (if toString_throws v then Inl TypeError else Inr (text_of v))"

record normalized =
  n_version :: "json option"
  n_title :: "json option"
  n_description :: "json option"
  n_baseUrl :: "json option"
  n_paths :: "json option"
  n_models :: json

definition legacy_base_url :: "(json \<Rightarrow> string) \<Rightarrow> json \<Rightarrow> error + json option" where
  "legacy_base_url text_of spec =
     (case own_prop spec ''host'' of
        None \<Rightarrow> Inr None
      | Some host \<Rightarrow>
          if truthy host then
            then_step (template_part text_of
                         (or_else (optional_member (own_prop spec ''schemes'') ''0'') (JStr ''http'')))
              (\<lambda>scheme_text.
            then_step (template_part text_of host) (\<lambda>host_text.
            then_step (template_part text_of (or_else (own_prop spec ''basePath'') (JStr [])))
              (\<lambda>base_text. Inr (Some (JStr (scheme_text @ ''://'' @ host_text @ base_text))))))
          else Inr None)"

definition normalizeSpec :: "(json \<Rightarrow> string) \<Rightarrow> json \<Rightarrow> error + normalized" where
  "normalizeSpec text_of spec =
     (case detectVersion spec of
        Inl e \<Rightarrow> Inl e
      | Inr V2 \<Rightarrow>
          then_step (legacy_base_url text_of spec) (\<lambda>baseUrl.
          then_step (member_of (own_prop spec ''info'') ''title'') (\<lambda>title.
          then_step (member_of (own_prop spec ''info'') ''description'') (\<lambda>description.
            Inr \<lparr>n_version = own_prop spec ''swagger'', n_title = title,
                 n_description = description, n_baseUrl = baseUrl,
                 n_paths = own_prop spec ''paths'',
                 n_models = or_else (own_prop spec ''definitions'') (JObj [])\<rparr>)))
      | Inr V3 \<Rightarrow>
          then_step (member_of (own_prop spec ''info'') ''title'') (\<lambda>title.
          then_step (member_of (own_prop spec ''info'') ''description'') (\<lambda>description.
            Inr \<lparr>n_version = own_prop spec ''openapi'', n_title = title,
                 n_description = description,
                 n_baseUrl = optional_member (optional_member (own_prop spec ''servers'') ''0'') ''url'',
                 n_paths = own_prop spec ''paths'',
                 n_models = or_else (optional_member (own_prop spec ''components'') ''schemas'')
                              (JObj [])\<rparr>)))"

definition legacy_marker :: "json \<Rightarrow> bool" where
  "legacy_marker spec = (own_prop spec ''swagger'' = Some (JStr ''2.0''))"

definition current_marker :: "json \<Rightarrow> bool" where
  "current_marker spec = (own_prop spec ''openapi'' \<noteq> None)"

lemma has_in_fixed:
  assumes "k \<in> set fixed_names"
  shows "has_in k spec =
     (if typeof_object spec \<and> truthy spec then Inr (own_prop spec k \<noteq> None) else Inl TypeError)"
  by (cases spec) (simp_all add: fixed_name_read[OF assms])

lemma detectVersion_cases:
  "detectVersion spec =
     (if legacy_marker spec then Inr V2
      else if current_marker spec then Inr V3
      else if typeof_object spec \<and> truthy spec then Inl UnknownVersion
      else Inl TypeError)"
proof -
  have s: "''swagger'' \<in> set fixed_names" and o: "''openapi'' \<in> set fixed_names"
    by (simp_all add: fixed_names_def)
  show ?thesis
    by (cases spec)
       (auto simp: detectVersion_def legacy_marker_def current_marker_def
                   has_in_fixed[OF s] has_in_fixed[OF o] simp del: has_in.simps)
qed

text \<open>
  What \<^verbatim>\<open>normalizeSpec\<close> can throw after the version check has passed: the member
  reads \<^verbatim>\<open>spec.info.title\<close> and \<^verbatim>\<open>spec.info.description\<close> when the document has no
  \<^verbatim>\<open>info\<close> (or a \<^verbatim>\<open>null\<close> one), and, for a legacy document with a host, the
  template literal of the base URL when one of its three parts cannot be converted to
  text. The interfaces \<^verbatim>\<open>OpenAPI2Spec\<close> and \<^verbatim>\<open>OpenAPI3Spec\<close> declare \<^verbatim>\<open>info\<close> as
  required and the three parts as strings.
\<close>

definition info_missing :: "json \<Rightarrow> bool" where
  "info_missing spec = (case own_prop spec ''info'' of None \<Rightarrow> True | Some v \<Rightarrow> v = JNull)"

definition base_url_unprintable :: "json \<Rightarrow> bool" where
  "base_url_unprintable spec =
     (case own_prop spec ''host'' of
        None \<Rightarrow> False
      | Some host \<Rightarrow>
          truthy host \<and>
          (toString_throws (or_else (optional_member (own_prop spec ''schemes'') ''0'') (JStr ''http''))
           \<or> toString_throws host
           \<or> toString_throws (or_else (own_prop spec ''basePath'') (JStr []))))"

lemma member_of_info:
  "member_of (own_prop spec ''info'') k =
     (if info_missing spec then Inl TypeError
      else Inr (optional_member (own_prop spec ''info'') k))"
proof (cases "own_prop spec ''info''")
  case None
  then show ?thesis by (simp add: info_missing_def)
next
  case (Some v)
  then show ?thesis by (cases v) (simp_all add: info_missing_def)
qed

lemma legacy_base_url_cases:
  "legacy_base_url text_of spec = Inl TypeError \<and> base_url_unprintable spec
   \<or> (\<exists>u. legacy_base_url text_of spec = Inr u) \<and> \<not> base_url_unprintable spec"
proof (cases "own_prop spec ''host''")
  case None
  then show ?thesis by (simp add: legacy_base_url_def base_url_unprintable_def)
next
  case (Some host)
  then show ?thesis
    by (simp add: legacy_base_url_def base_url_unprintable_def then_step_def template_part_def)
qed

lemma normalizeSpec_legacy:
  assumes "legacy_marker spec"
  shows "normalizeSpec text_of spec = Inl TypeError \<and> (base_url_unprintable spec \<or> info_missing spec)
       \<or> (\<exists>n. normalizeSpec text_of spec = Inr n)
           \<and> \<not> base_url_unprintable spec \<and> \<not> info_missing spec"
proof -
  have v: "detectVersion spec = Inr V2" using assms by (simp add: detectVersion_cases)
  from legacy_base_url_cases[of text_of spec] show ?thesis
  proof
    assume "legacy_base_url text_of spec = Inl TypeError \<and> base_url_unprintable spec"
    then show ?thesis using v by (simp add: normalizeSpec_def then_step_def)
  next
    assume "(\<exists>u. legacy_base_url text_of spec = Inr u) \<and> \<not> base_url_unprintable spec"
    then show ?thesis using v
      by (auto simp: normalizeSpec_def then_step_def member_of_info)
  qed
qed

lemma normalizeSpec_current:
  assumes "\<not> legacy_marker spec" "current_marker spec"
  shows "normalizeSpec text_of spec = Inl TypeError \<and> info_missing spec
       \<or> (\<exists>n. normalizeSpec text_of spec = Inr n) \<and> \<not> info_missing spec"
proof -
  have "detectVersion spec = Inr V3" using assms by (simp add: detectVersion_cases)
  then show ?thesis
    by (simp add: normalizeSpec_def then_step_def member_of_info)
qed

text \<open>
  Claim C9, as stated, fails for the operation that normalizes: a document with the
  legacy marker and nothing else passes the version check, and \<^verbatim>\<open>normalizeSpec\<close>
  then reads \<^verbatim>\<open>swagger2.info.title\<close> on a document without \<^verbatim>\<open>info\<close>, a
  \<^verbatim>\<open>TypeError\<close>.
\<close>

theorem normalizeSpec_raises_counterexample:
  "detectVersion (JObj [(''swagger'', JStr ''2.0'')]) = Inr V2
   \<and> normalizeSpec template_text (JObj [(''swagger'', JStr ''2.0'')]) = Inl TypeError"
  by code_simp

text \<open>
  Claim C9, amended. \<^verbatim>\<open>detectVersion\<close> raises exactly when the document carries
  neither the legacy marker (a \<^verbatim>\<open>swagger\<close> field equal to \<^verbatim>\<open>"2.0"\<close>) nor the current
  marker (an \<^verbatim>\<open>openapi\<close> field); with the legacy marker it answers \<^verbatim>\<open>"2.0"\<close>,
  otherwise with the current marker \<^verbatim>\<open>"3.0+"\<close>. Whatever it raises,
  \<^verbatim>\<open>normalizeSpec\<close> raises too, and \<^verbatim>\<open>normalizeSpec\<close> raises the error of an unknown
  version in no other case. On a document with a marker \<^verbatim>\<open>normalizeSpec\<close> raises
  exactly when \<^verbatim>\<open>info\<close> is missing or, the document being a legacy one, its base URL
  cannot be put into text, and what it raises then is a \<^verbatim>\<open>TypeError\<close>.
\<close>

theorem detectVersion_raises_iff:
  "(detectVersion spec = Inr V2 \<longleftrightarrow> legacy_marker spec) \<and>
   (detectVersion spec = Inr V3 \<longleftrightarrow> \<not> legacy_marker spec \<and> current_marker spec) \<and>
   ((\<exists>e. detectVersion spec = Inl e) \<longleftrightarrow> \<not> legacy_marker spec \<and> \<not> current_marker spec) \<and>
   (\<forall>e. detectVersion spec = Inl e \<longrightarrow> normalizeSpec text_of spec = Inl e) \<and>
   (normalizeSpec text_of spec = Inl UnknownVersion \<longleftrightarrow> detectVersion spec = Inl UnknownVersion) \<and>
   ((\<exists>e. normalizeSpec text_of spec = Inl e) \<longleftrightarrow>
      (\<not> legacy_marker spec \<and> \<not> current_marker spec)
      \<or> (legacy_marker spec \<and> base_url_unprintable spec)
      \<or> info_missing spec) \<and>
   ((legacy_marker spec \<or> current_marker spec) \<and> (\<exists>e. normalizeSpec text_of spec = Inl e)
      \<longrightarrow> normalizeSpec text_of spec = Inl TypeError)"
proof -
  have d: "(detectVersion spec = Inr V2 \<longleftrightarrow> legacy_marker spec) \<and>
   (detectVersion spec = Inr V3 \<longleftrightarrow> \<not> legacy_marker spec \<and> current_marker spec) \<and>
   ((\<exists>e. detectVersion spec = Inl e) \<longleftrightarrow> \<not> legacy_marker spec \<and> \<not> current_marker spec) \<and>
   (\<forall>e. detectVersion spec = Inl e \<longrightarrow> normalizeSpec text_of spec = Inl e)"
    by (simp add: detectVersion_cases normalizeSpec_def)
  consider (legacy) "legacy_marker spec"
    | (current) "\<not> legacy_marker spec" "current_marker spec"
    | (neither) "\<not> legacy_marker spec" "\<not> current_marker spec"
    by blast
  then have n: "(normalizeSpec text_of spec = Inl UnknownVersion \<longleftrightarrow> detectVersion spec = Inl UnknownVersion) \<and>
   ((\<exists>e. normalizeSpec text_of spec = Inl e) \<longleftrightarrow>
      (\<not> legacy_marker spec \<and> \<not> current_marker spec)
      \<or> (legacy_marker spec \<and> base_url_unprintable spec)
      \<or> info_missing spec) \<and>
   ((legacy_marker spec \<or> current_marker spec) \<and> (\<exists>e. normalizeSpec text_of spec = Inl e)
      \<longrightarrow> normalizeSpec text_of spec = Inl TypeError)"
  proof cases
    case legacy
    have v: "detectVersion spec = Inr V2" using legacy by (simp add: detectVersion_cases)
    from normalizeSpec_legacy[OF legacy, of text_of] v legacy show ?thesis by auto
  next
    case current
    have v: "detectVersion spec = Inr V3" using current by (simp add: detectVersion_cases)
    from normalizeSpec_current[OF current, of text_of] v current show ?thesis by auto
  next
    case neither
    with d obtain e where e: "detectVersion spec = Inl e"
      by blast
    then have "normalizeSpec text_of spec = Inl e" by (simp add: normalizeSpec_def)
    with e neither show ?thesis by auto
  qed
  from d n show ?thesis by blast
qed

theorem detectVersion_raises_iff_witness:
  "detectVersion (JObj [(''info'', JObj [(''title'', JStr ''Pets'')])]) = Inl UnknownVersion \<and>
   normalizeSpec (\<lambda>v. []) (JObj [(''info'', JObj [(''title'', JStr ''Pets'')])]) = Inl UnknownVersion \<and>
   detectVersion (JObj [(''swagger'', JStr ''2.0'')]) = Inr V2 \<and>
   detectVersion (JObj [(''openapi'', JStr ''3.0.3'')]) = Inr V3 \<and>
   detectVersion (JObj [(''swagger'', JStr ''1.2'')]) = Inl UnknownVersion \<and>
   detectVersion (JStr ''<html>'') = Inl TypeError \<and>
   normalizeSpec (\<lambda>v. []) (JObj [(''openapi'', JStr ''3.0.3'')]) = Inl TypeError \<and>
   (\<exists>n. normalizeSpec (\<lambda>v. [])
          (JObj [(''openapi'', JStr ''3.0.3''), (''info'', JObj [(''title'', JStr ''Pets'')])]) = Inr n)"
proof -
  let ?none = "JObj [(''info'', JObj [(''title'', JStr ''Pets'')])]"
  let ?bare = "JObj [(''openapi'', JStr ''3.0.3'')]"
  let ?pets = "JObj [(''openapi'', JStr ''3.0.3''), (''info'', JObj [(''title'', JStr ''Pets'')])]"
  have raised: "detectVersion ?none = Inl UnknownVersion"
    by code_simp
  have others: "detectVersion (JObj [(''swagger'', JStr ''2.0'')]) = Inr V2"
      "detectVersion ?bare = Inr V3"
      "detectVersion (JObj [(''swagger'', JStr ''1.2'')]) = Inl UnknownVersion"
      "detectVersion (JStr ''<html>'') = Inl TypeError"
    by code_simp+
  from detectVersion_raises_iff[of ?none "\<lambda>v. []"] raised
  have 1: "normalizeSpec (\<lambda>v. []) ?none = Inl UnknownVersion"
    by blast
  have mb: "current_marker ?bare" "info_missing ?bare"
    by (simp_all add: current_marker_def info_missing_def)
  from detectVersion_raises_iff[of ?bare "\<lambda>v. []"] mb
  have 2: "normalizeSpec (\<lambda>v. []) ?bare = Inl TypeError"
    by blast
  have mp: "current_marker ?pets" "\<not> legacy_marker ?pets" "\<not> info_missing ?pets"
    by (simp_all add: current_marker_def legacy_marker_def info_missing_def)
  from detectVersion_raises_iff[of ?pets "\<lambda>v. []"] mp
  have "\<not> (\<exists>e. normalizeSpec (\<lambda>v. []) ?pets = Inl e)"
    by blast
  then have 3: "\<exists>n. normalizeSpec (\<lambda>v. []) ?pets = Inr n"
    by (cases "normalizeSpec (\<lambda>v. []) ?pets") auto
  from raised others 1 2 3 show ?thesis by simp
qed

section \<open>The spec cache\<close>

text \<open>
  \<^verbatim>\<open>getCachedSpec\<close> talks to two things outside the program: the remote server (one
  \<^verbatim>\<open>HEAD\<close> and at most one \<^verbatim>\<open>GET\<close> per call) and the cache directory. Both are made
  explicit. What the server would answer to each request is part of the environment
  \<open>env\<close>; the cache directory is a map from file paths to file contents, passed in and
  returned; every request sent and every file written is appended to a trace, so that
  "performs no full fetch" is a statement about the trace. The file name is the SHA-256
  of the URL, which the embedding takes as the function \<open>cache_path\<close>. A file that
  cannot be read or parsed (or parses to a falsy value) is \<open>Unreadable\<close>:
  \<^verbatim>\<open>readCacheEntry\<close> answers \<^verbatim>\<open>null\<close> for it, as for a missing file. A write that
  fails is taken to leave the directory as it was.

  \<^verbatim>\<open>buildAxiosConfig\<close> only decorates the two requests with credentials and cannot
  throw (\<^verbatim>\<open>performLogin\<close> catches and logs its own failures), so it does not appear.
\<close>

record cache_entry =
  ce_url :: string
  ce_etag :: "string option"
  ce_lastModified :: "string option"
  ce_cachedAt :: string
  ce_spec :: json

record http_response =
  status :: nat
  etag_header :: "string option"
  lastModified_header :: "string option"
  data :: json

datatype reply = NoReply | Replied http_response

datatype fetch_failure = HttpStatus nat | NoResponseFromServer | NotOk nat

datatype cache_error = FetchError fetch_failure | WriteError

datatype stored = Entry cache_entry | Unreadable

datatype event = HeadRequest | GetRequest | FileWrite string cache_entry

record env =
  cache_path :: "string \<Rightarrow> string"
  head_reply :: reply
  get_reply :: reply
  write_ok :: bool
  now :: string

record outcome =
  returned :: "cache_error + json"
  disk_after :: "string \<rightharpoonup> stored"
  events :: "event list"

definition readCacheEntry :: "(string \<rightharpoonup> stored) \<Rightarrow> string \<Rightarrow> cache_entry option" where
  "readCacheEntry disk filePath =
     (case disk filePath of
        None \<Rightarrow> None
      | Some Unreadable \<Rightarrow> None
      | Some (Entry e) \<Rightarrow> Some e)"

definition writeCacheEntry ::
  "env \<Rightarrow> (string \<rightharpoonup> stored) \<Rightarrow> string \<Rightarrow> cache_entry \<Rightarrow> cache_error + (string \<rightharpoonup> stored)" where
  "writeCacheEntry e disk filePath entry =
     (if write_ok e then Inr (disk(filePath \<mapsto> Entry entry)) else Inl WriteError)"

text \<open>
  A header value is used by \<^verbatim>\<open>etag && cachedEntry.etag\<close> only when it is truthy: present
  and not the empty string. The \<^verbatim>\<open>HEAD\<close> request is sent with
  \<^verbatim>\<open>validateStatus: status < 500\<close>, so a 5xx answer throws inside the \<^verbatim>\<open>try\<close> and
  is caught, like a network failure.
\<close>

definition header_given :: "string option \<Rightarrow> bool" where
  "header_given h = (case h of None \<Rightarrow> False | Some s \<Rightarrow> s \<noteq> [])"

definition checkIfModified :: "reply \<Rightarrow> cache_entry \<Rightarrow> bool" where
  "checkIfModified head cachedEntry =
     (case head of
        NoReply \<Rightarrow> True
      | Replied response \<Rightarrow>
          if \<not> status response < 500 then True
          else if status response = 405 then True
          else if status response \<ge> 400 then True
          else if header_given (etag_header response) \<and> header_given (ce_etag cachedEntry)
            then etag_header response \<noteq> ce_etag cachedEntry
          else if header_given (lastModified_header response)
                  \<and> header_given (ce_lastModified cachedEntry)
            then lastModified_header response \<noteq> ce_lastModified cachedEntry
          else True)"

text \<open>
  \<^verbatim>\<open>axios.get\<close> rejects every answer outside 2xx; \<^verbatim>\<open>fetchSpec\<close> itself rejects
  every status other than 200; each failure is wrapped in a new \<^verbatim>\<open>Error\<close>.
\<close>

definition fetchSpec :: "reply \<Rightarrow> fetch_failure + (json \<times> string option \<times> string option)" where
  "fetchSpec got =
     (case got of
        NoReply \<Rightarrow> Inl NoResponseFromServer
      | Replied response \<Rightarrow>
          if \<not> (200 \<le> status response \<and> status response < 300)
            then Inl (HttpStatus (status response))
          else if status response \<noteq> 200 then Inl (NotOk (status response))
          else Inr (data response, etag_header response, lastModified_header response))"

definition getCachedSpec :: "env \<Rightarrow> string \<Rightarrow> (string \<rightharpoonup> stored) \<Rightarrow> outcome" where
  "getCachedSpec e url disk =
     (let cacheFilePath = cache_path e url in
      case readCacheEntry disk cacheFilePath of
        None \<Rightarrow>
          (case fetchSpec (get_reply e) of
             Inl failure \<Rightarrow>
               \<lparr>returned = Inl (FetchError failure), disk_after = disk, events = [GetRequest]\<rparr>
           | Inr (spec, etag, lastModified) \<Rightarrow>
               (let newEntry = \<lparr>ce_url = url, ce_etag = etag, ce_lastModified = lastModified,
                                ce_cachedAt = now e, ce_spec = spec\<rparr> in
                case writeCacheEntry e disk cacheFilePath newEntry of
                  Inl err \<Rightarrow> \<lparr>returned = Inl err, disk_after = disk, events = [GetRequest]\<rparr>
                | Inr disk' \<Rightarrow>
                    \<lparr>returned = Inr spec, disk_after = disk',
                     events = [GetRequest, FileWrite cacheFilePath newEntry]\<rparr>))
      | Some cachedEntry \<Rightarrow>
          if \<not> checkIfModified (head_reply e) cachedEntry then
            \<lparr>returned = Inr (ce_spec cachedEntry), disk_after = disk, events = [HeadRequest]\<rparr>
          else
            (case fetchSpec (get_reply e) of
               Inl failure \<Rightarrow>
                 \<lparr>returned = Inr (ce_spec cachedEntry), disk_after = disk,
                  events = [HeadRequest, GetRequest]\<rparr>
             | Inr (spec, etag, lastModified) \<Rightarrow>
                 (let newEntry = \<lparr>ce_url = url, ce_etag = etag, ce_lastModified = lastModified,
                                  ce_cachedAt = now e, ce_spec = spec\<rparr> in
                  case writeCacheEntry e disk cacheFilePath newEntry of
                    Inl err \<Rightarrow>
                      \<lparr>returned = Inr (ce_spec cachedEntry), disk_after = disk,
                       events = [HeadRequest, GetRequest]\<rparr>
                  | Inr disk' \<Rightarrow>
                      \<lparr>returned = Inr spec, disk_after = disk',
                       events = [HeadRequest, GetRequest, FileWrite cacheFilePath newEntry]\<rparr>)))"


abbreviation cached_v1 :: cache_entry where
  "cached_v1 \<equiv> \<lparr>ce_url = ''http://api/spec.json'', ce_etag = Some ''v1'',
      ce_lastModified = None, ce_cachedAt = ''t0'', ce_spec = JObj [(''openapi'', JStr ''3.0.0'')]\<rparr>"

abbreviation disk_v1 :: "string \<rightharpoonup> stored" where
  "disk_v1 \<equiv> [''cache/http://api/spec.json'' \<mapsto> Entry cached_v1]"

abbreviation answer :: "nat \<Rightarrow> string option \<Rightarrow> json \<Rightarrow> reply" where
  "answer code tag body \<equiv>
     Replied \<lparr>status = code, etag_header = tag, lastModified_header = None, data = body\<rparr>"

abbreviation world :: "reply \<Rightarrow> reply \<Rightarrow> env" where
  "world head got \<equiv> \<lparr>cache_path = append ''cache/'', head_reply = head, get_reply = got,
      write_ok = True, now = ''t1''\<rparr>"

lemma fetchSpec_fails_iff:
  "(\<exists>failure. fetchSpec got = Inl failure) \<longleftrightarrow>
     (case got of NoReply \<Rightarrow> True | Replied response \<Rightarrow> status response \<noteq> 200)"
  by (auto simp: fetchSpec_def split: reply.splits)

text \<open>
  Claim C2. \<^verbatim>\<open>getCachedSpec\<close> raises a fetch error exactly when no cache entry can be
  read for the URL and the full fetch fails (no answer, or a status other than 200).
  When an entry exists the call always returns a document, and a fetch that fails after
  a stale decision returns the cached document and leaves the cache directory alone.
\<close>

theorem getCachedSpec_fetch_error_iff:
  "((\<exists>failure. returned (getCachedSpec e url disk) = Inl (FetchError failure)) \<longleftrightarrow>
      readCacheEntry disk (cache_path e url) = None \<and>
      (case get_reply e of NoReply \<Rightarrow> True | Replied response \<Rightarrow> status response \<noteq> 200)) \<and>
   (\<forall>cachedEntry. readCacheEntry disk (cache_path e url) = Some cachedEntry \<longrightarrow>
      (\<exists>doc. returned (getCachedSpec e url disk) = Inr doc) \<and>
      (checkIfModified (head_reply e) cachedEntry \<and>
       (case get_reply e of NoReply \<Rightarrow> True | Replied response \<Rightarrow> status response \<noteq> 200) \<longrightarrow>
         returned (getCachedSpec e url disk) = Inr (ce_spec cachedEntry) \<and>
         disk_after (getCachedSpec e url disk) = disk))"
proof -
  have f: "(\<exists>failure. fetchSpec (get_reply e) = Inl failure) \<longleftrightarrow>
     (case get_reply e of NoReply \<Rightarrow> True | Replied response \<Rightarrow> status response \<noteq> 200)"
    by (rule fetchSpec_fails_iff)
  show ?thesis
    unfolding f[symmetric]
    by (auto simp: getCachedSpec_def Let_def writeCacheEntry_def
             split: option.splits sum.splits prod.splits)
qed

theorem getCachedSpec_fetch_error_iff_witness:
  "returned (getCachedSpec (world (answer 200 (Some ''v2'') JNull) NoReply)
              ''http://api/spec.json'' disk_v1)
     = Inr (JObj [(''openapi'', JStr ''3.0.0'')]) \<and>
   returned (getCachedSpec (world NoReply NoReply) ''http://api/spec.json'' Map.empty)
     = Inl (FetchError NoResponseFromServer)"
proof -
  let ?e = "world (answer 200 (Some ''v2'') JNull) NoReply"
  have r: "readCacheEntry disk_v1 (cache_path ?e ''http://api/spec.json'') = Some cached_v1"
    by (simp add: readCacheEntry_def)
  have m: "checkIfModified (head_reply ?e) cached_v1"
    by (simp add: checkIfModified_def header_given_def)
  have g: "(case get_reply ?e of NoReply \<Rightarrow> True | Replied response \<Rightarrow> status response \<noteq> 200)"
    by simp
  from getCachedSpec_fetch_error_iff[of ?e "''http://api/spec.json''" disk_v1] r m g
  have "returned (getCachedSpec ?e ''http://api/spec.json'' disk_v1) = Inr (ce_spec cached_v1)"
    by blast
  moreover have "returned (getCachedSpec (world NoReply NoReply) ''http://api/spec.json'' Map.empty)
     = Inl (FetchError NoResponseFromServer)"
    by (simp add: getCachedSpec_def readCacheEntry_def fetchSpec_def)
  ultimately show ?thesis by simp
qed

text \<open>
  The freshness rule in the words of the specification, for an answer to the
  lightweight check: stale on 405, on a client or server error status, or when the
  remote omits both validators; otherwise stale when the remote's etag differs from the
  stored one; otherwise stale when both sides lack an etag and the last-modified values
  differ; otherwise fresh. A header "carried" is one that is present and not empty.
\<close>

definition carried :: "string option \<Rightarrow> string option" where
  "carried h = (if header_given h then h else None)"

definition stale_by_rule :: "http_response \<Rightarrow> cache_entry \<Rightarrow> bool" where
  "stale_by_rule response cachedEntry =
     (if status response = 405 \<or> status response \<ge> 400
         \<or> (carried (etag_header response) = None \<and> carried (lastModified_header response) = None)
        then True
      else if carried (etag_header response) \<noteq> carried (ce_etag cachedEntry) then True
      else if carried (etag_header response) = None \<and> carried (ce_etag cachedEntry) = None
              \<and> carried (lastModified_header response) \<noteq> carried (ce_lastModified cachedEntry)
        then True
      else False)"

definition one_sided_etag :: "http_response \<Rightarrow> cache_entry \<Rightarrow> bool" where
  "one_sided_etag response cachedEntry =
     (header_given (etag_header response) \<noteq> header_given (ce_etag cachedEntry))"

text \<open>
  Claim C3, as stated, fails: the remote answers 200 with etag \<^verbatim>\<open>v1\<close> and a
  last-modified date, the stored entry has no etag and the same date. The rule says
  stale (the etags differ); \<^verbatim>\<open>checkIfModified\<close> skips the etag comparison because one
  side has none, compares the dates and answers fresh.
\<close>

theorem checkIfModified_rule_counterexample:
  "checkIfModified
      (Replied \<lparr>status = 200, etag_header = Some ''v1'',
                lastModified_header = Some ''Mon, 01 Jan 2024 00:00:00 GMT'', data = JNull\<rparr>)
      \<lparr>ce_url = ''http://api/spec.json'', ce_etag = None,
       ce_lastModified = Some ''Mon, 01 Jan 2024 00:00:00 GMT'', ce_cachedAt = ''t0'', ce_spec = JNull\<rparr>
    \<noteq>
   stale_by_rule
      \<lparr>status = 200, etag_header = Some ''v1'',
       lastModified_header = Some ''Mon, 01 Jan 2024 00:00:00 GMT'', data = JNull\<rparr>
      \<lparr>ce_url = ''http://api/spec.json'', ce_etag = None,
       ce_lastModified = Some ''Mon, 01 Jan 2024 00:00:00 GMT'', ce_cachedAt = ''t0'', ce_spec = JNull\<rparr>"
  by (simp add: checkIfModified_def stale_by_rule_def header_given_def carried_def)

text \<open>
  Claim C3, amended. The freshness decision follows the stated rule except where exactly
  one side carries an etag: there the etag is ignored, and the cache is fresh when both
  sides carry the same last-modified value (and stale otherwise, as the rule says).
\<close>

theorem checkIfModified_amended_rule:
  "checkIfModified (Replied response) cachedEntry =
     (if status response < 400 \<and> one_sided_etag response cachedEntry
         \<and> header_given (lastModified_header response)
         \<and> lastModified_header response = ce_lastModified cachedEntry
        then False
      else stale_by_rule response cachedEntry)"
  unfolding checkIfModified_def stale_by_rule_def one_sided_etag_def carried_def header_given_def
  by (auto split: option.splits)

theorem checkIfModified_amended_rule_witness:
  "\<not> checkIfModified
      (Replied \<lparr>status = 200, etag_header = None,
                lastModified_header = Some ''Mon, 01 Jan 2024 00:00:00 GMT'', data = JNull\<rparr>)
      \<lparr>ce_url = ''http://api/spec.json'', ce_etag = Some ''v1'',
       ce_lastModified = Some ''Mon, 01 Jan 2024 00:00:00 GMT'', ce_cachedAt = ''t0'', ce_spec = JNull\<rparr>
   \<and> checkIfModified (answer 200 (Some ''v2'') JNull) cached_v1
   \<and> \<not> checkIfModified (answer 200 (Some ''v1'') JNull) cached_v1
   \<and> checkIfModified (answer 405 (Some ''v1'') JNull) cached_v1"
  using checkIfModified_amended_rule[of
      "\<lparr>status = 200, etag_header = None,
        lastModified_header = Some ''Mon, 01 Jan 2024 00:00:00 GMT'', data = JNull\<rparr>"
      "\<lparr>ce_url = ''http://api/spec.json'', ce_etag = Some ''v1'',
        ce_lastModified = Some ''Mon, 01 Jan 2024 00:00:00 GMT'', ce_cachedAt = ''t0'', ce_spec = JNull\<rparr>"]
    checkIfModified_amended_rule[of
      "\<lparr>status = 200, etag_header = Some ''v2'', lastModified_header = None, data = JNull\<rparr>" cached_v1]
    checkIfModified_amended_rule[of
      "\<lparr>status = 200, etag_header = Some ''v1'', lastModified_header = None, data = JNull\<rparr>" cached_v1]
    checkIfModified_amended_rule[of
      "\<lparr>status = 405, etag_header = Some ''v1'', lastModified_header = None, data = JNull\<rparr>" cached_v1]
  by (simp add: one_sided_etag_def header_given_def stale_by_rule_def carried_def)

text \<open>
  Claim C6. With a cache entry whose etag is \<^verbatim>\<open>v1\<close> and a lightweight check that
  answers (below 400) with etag \<^verbatim>\<open>v1\<close>, \<^verbatim>\<open>getCachedSpec\<close> returns the stored document
  as it was stored, sends no full fetch and writes no file.
\<close>

theorem fresh_cache_served_untouched:
  assumes "readCacheEntry disk (cache_path e url) = Some cachedEntry"
    and "ce_etag cachedEntry = Some ''v1''"
    and "head_reply e = Replied response"
    and "status response < 400"
    and "etag_header response = Some ''v1''"
  shows "returned (getCachedSpec e url disk) = Inr (ce_spec cachedEntry)
       \<and> disk_after (getCachedSpec e url disk) = disk
       \<and> events (getCachedSpec e url disk) = [HeadRequest]"
proof -
  have "\<not> checkIfModified (head_reply e) cachedEntry"
    using assms(2-5) by (simp add: checkIfModified_def header_given_def)
  then show ?thesis
    using assms(1) by (simp add: getCachedSpec_def)
qed

theorem fresh_cache_served_untouched_witness:
  "returned (getCachedSpec
       (world (answer 200 (Some ''v1'') JNull)
              (answer 200 (Some ''v1'') (JObj [(''openapi'', JStr ''3.1.0'')])))
       ''http://api/spec.json'' disk_v1)
     = Inr (JObj [(''openapi'', JStr ''3.0.0'')]) \<and>
   disk_after (getCachedSpec
       (world (answer 200 (Some ''v1'') JNull)
              (answer 200 (Some ''v1'') (JObj [(''openapi'', JStr ''3.1.0'')])))
       ''http://api/spec.json'' disk_v1)
     = disk_v1 \<and>
   events (getCachedSpec
       (world (answer 200 (Some ''v1'') JNull)
              (answer 200 (Some ''v1'') (JObj [(''openapi'', JStr ''3.1.0'')])))
       ''http://api/spec.json'' disk_v1)
     = [HeadRequest]"
proof -
  let ?head = "\<lparr>status = 200, etag_header = Some ''v1'', lastModified_header = None, data = JNull\<rparr>"
  let ?e = "world (Replied ?head) (answer 200 (Some ''v1'') (JObj [(''openapi'', JStr ''3.1.0'')]))"
  have "readCacheEntry disk_v1 (cache_path ?e ''http://api/spec.json'') = Some cached_v1"
    by (simp add: readCacheEntry_def)
  from fresh_cache_served_untouched[OF this, of ?head]
  show ?thesis by simp
qed

text \<open>
  Claim C7, as stated, fails: the entry has etag \<^verbatim>\<open>v1\<close>, the check reports \<^verbatim>\<open>v2\<close>, and
  the full fetch gets no answer. The fetch is attempted, but nothing is persisted: the
  old entry is still the one on disk and the old document is returned.
\<close>

theorem stale_cache_refetch_counterexample:
  "disk_after (getCachedSpec (world (answer 200 (Some ''v2'') JNull) NoReply)
                 ''http://api/spec.json'' disk_v1) ''cache/http://api/spec.json''
     = Some (Entry cached_v1) \<and>
   returned (getCachedSpec (world (answer 200 (Some ''v2'') JNull) NoReply)
               ''http://api/spec.json'' disk_v1)
     = Inr (ce_spec cached_v1) \<and>
   events (getCachedSpec (world (answer 200 (Some ''v2'') JNull) NoReply)
             ''http://api/spec.json'' disk_v1)
     = [HeadRequest, GetRequest]"
  by (simp add: getCachedSpec_def readCacheEntry_def checkIfModified_def header_given_def
      fetchSpec_def)

text \<open>
  Claim C7, amended. With a cache entry whose etag is \<^verbatim>\<open>v1\<close> and a lightweight check
  that answers (below 400) with etag \<^verbatim>\<open>v2\<close>, \<^verbatim>\<open>getCachedSpec\<close> sends a full fetch.
  When the fetch is answered with status 200 and the file can be written, the fetched
  document is returned and the entry for the URL is replaced as a whole by a new one
  built from that answer: its etag is the etag of the full-fetch answer (\<^verbatim>\<open>v2\<close> when
  the remote reports the same validator on both requests).
\<close>

theorem stale_cache_refetched:
  assumes "readCacheEntry disk (cache_path e url) = Some cachedEntry"
    and "ce_etag cachedEntry = Some ''v1''"
    and "head_reply e = Replied response"
    and "status response < 400"
    and "etag_header response = Some ''v2''"
  shows "take 2 (events (getCachedSpec e url disk)) = [HeadRequest, GetRequest]
       \<and> (\<forall>fetched. get_reply e = Replied fetched \<and> status fetched = 200 \<and> write_ok e \<longrightarrow>
             returned (getCachedSpec e url disk) = Inr (data fetched)
           \<and> disk_after (getCachedSpec e url disk) =
                disk(cache_path e url \<mapsto> Entry \<lparr>ce_url = url, ce_etag = etag_header fetched,
                   ce_lastModified = lastModified_header fetched, ce_cachedAt = now e,
                   ce_spec = data fetched\<rparr>)
           \<and> events (getCachedSpec e url disk) =
                [HeadRequest, GetRequest,
                 FileWrite (cache_path e url) \<lparr>ce_url = url, ce_etag = etag_header fetched,
                   ce_lastModified = lastModified_header fetched, ce_cachedAt = now e,
                   ce_spec = data fetched\<rparr>])"
proof -
  have m: "checkIfModified (head_reply e) cachedEntry"
    using assms(2-5) by (simp add: checkIfModified_def header_given_def)
  show ?thesis
    using assms(1) m
    by (auto simp: getCachedSpec_def Let_def fetchSpec_def writeCacheEntry_def
             split: reply.splits sum.splits prod.splits)
qed

theorem stale_cache_refetched_witness:
  "returned (getCachedSpec
       (world (answer 200 (Some ''v2'') JNull)
              (answer 200 (Some ''v2'') (JObj [(''openapi'', JStr ''3.1.0'')])))
       ''http://api/spec.json'' disk_v1)
     = Inr (JObj [(''openapi'', JStr ''3.1.0'')]) \<and>
   disk_after (getCachedSpec
       (world (answer 200 (Some ''v2'') JNull)
              (answer 200 (Some ''v2'') (JObj [(''openapi'', JStr ''3.1.0'')])))
       ''http://api/spec.json'' disk_v1) ''cache/http://api/spec.json''
     = Some (Entry \<lparr>ce_url = ''http://api/spec.json'', ce_etag = Some ''v2'',
          ce_lastModified = None, ce_cachedAt = ''t1'',
          ce_spec = JObj [(''openapi'', JStr ''3.1.0'')]\<rparr>)"
proof -
  let ?head = "\<lparr>status = 200, etag_header = Some ''v2'', lastModified_header = None, data = JNull\<rparr>"
  let ?got = "\<lparr>status = 200, etag_header = Some ''v2'', lastModified_header = None,
               data = JObj [(''openapi'', JStr ''3.1.0'')]\<rparr>"
  let ?e = "world (Replied ?head) (Replied ?got)"
  have "readCacheEntry disk_v1 (cache_path ?e ''http://api/spec.json'') = Some cached_v1"
    by (simp add: readCacheEntry_def)
  from stale_cache_refetched[OF this, of ?head]
  have "\<forall>fetched. get_reply ?e = Replied fetched \<and> status fetched = 200 \<and> write_ok ?e \<longrightarrow>
             returned (getCachedSpec ?e ''http://api/spec.json'' disk_v1) = Inr (data fetched)
           \<and> disk_after (getCachedSpec ?e ''http://api/spec.json'' disk_v1) =
                disk_v1(cache_path ?e ''http://api/spec.json'' \<mapsto> Entry \<lparr>ce_url = ''http://api/spec.json'',
                   ce_etag = etag_header fetched,
                   ce_lastModified = lastModified_header fetched, ce_cachedAt = now ?e,
                   ce_spec = data fetched\<rparr>)"
    by simp
  from this[rule_format, of ?got] show ?thesis by simp
qed

section \<open>The resolver on a heap: what it writes\<close>

text \<open>
  The value model above cannot say that an input is left alone: a HOL value cannot be
  changed. To state it, the resolver is translated a second time with objects where the
  script has them, in a store. An address is an index into the list of allocated
  objects and arrays; an object literal, a spread, \<^verbatim>\<open>Object.fromEntries\<close> and
  \<^verbatim>\<open>Array.prototype.map\<close> allocate at the end of the list; the assignments
  \<^verbatim>\<open>result.properties = ...\<close>, \<^verbatim>\<open>result.items = ...\<close> and so on overwrite a cell.
  Values are primitives or addresses, so the result may share structure with the
  document, as it does in the script. The store may hold cyclic structures, on which the
  recursion need not end, so the translation counts its depth down from a bound and
  answers \<open>OutOfFuel\<close> when it is used up; the frame property below holds for every
  bound and every outcome. The visited set is a value here as before: each call hands
  on a copy or its own extended set, and the claim is about the document and the
  fragment.
\<close>

datatype hval = HNull | HBool bool | HNum rat | HStr string | HRef nat

datatype hobj = HObject "(string \<times> hval) list" | HArray "hval list"

type_synonym heap = "hobj list"

datatype 'a run = Returned 'a | Raised error | OutOfFuel

definition cell :: "heap \<Rightarrow> nat \<Rightarrow> hobj option" where
  "cell h a = (if a < length h then Some (h ! a) else None)"

definition alloc :: "hobj \<Rightarrow> heap \<Rightarrow> nat \<times> heap" where
  "alloc obj h = (length h, h @ [obj])"

definition set_prop :: "nat \<Rightarrow> string \<Rightarrow> hval \<Rightarrow> heap \<Rightarrow> heap" where
  "set_prop a key v h =
     (case cell h a of
        Some (HObject kvs) \<Rightarrow> h[a := HObject (AList.update key v kvs)]
      | _ \<Rightarrow> h)"

fun h_truthy :: "hval \<Rightarrow> bool" where
  "h_truthy HNull = False"
| "h_truthy (HBool b) = b"
| "h_truthy (HNum n) = (n \<noteq> 0)"
| "h_truthy (HStr s) = (s \<noteq> [])"
| "h_truthy (HRef a) = True"

fun h_typeof_object :: "hval \<Rightarrow> bool" where
  "h_typeof_object HNull = True"
| "h_typeof_object (HRef a) = True"
| "h_typeof_object _ = False"

definition h_is_array :: "heap \<Rightarrow> hval \<Rightarrow> bool" where
  "h_is_array h v = (case v of
      HRef a \<Rightarrow> (case cell h a of Some (HArray xs) \<Rightarrow> True | _ \<Rightarrow> False)
    | _ \<Rightarrow> False)"

definition h_elements :: "heap \<Rightarrow> hval \<Rightarrow> hval list" where
  "h_elements h v = (case v of
      HRef a \<Rightarrow> (case cell h a of Some (HArray xs) \<Rightarrow> xs | _ \<Rightarrow> [])
    | _ \<Rightarrow> [])"

definition h_entries :: "heap \<Rightarrow> hval \<Rightarrow> (string \<times> hval) list" where
  "h_entries h v = (case v of
      HRef a \<Rightarrow>
        (case cell h a of
           Some (HObject kvs) \<Rightarrow> kvs
         | Some (HArray xs) \<Rightarrow> zip (index_keys (length xs)) xs
         | None \<Rightarrow> [])
    | HStr s \<Rightarrow> zip (index_keys (length s)) (map (\<lambda>c. HStr [c]) s)
    | _ \<Rightarrow> [])"

text \<open>
  The two reads, as in the value model: \<open>h_own\<close> for the names the script spells
  out, and \<open>h_get\<close>, which goes on along the prototype chain, for the computed read
  of the pointer walk. An object in the store is a plain object and an array a plain
  array, so the prototypes are the same two built-in objects; they are not cells of the
  store, and nothing in the script writes to them.
\<close>

definition h_own :: "heap \<Rightarrow> hval \<Rightarrow> string \<Rightarrow> hval option" where
  "h_own h v k = (case v of
      HRef a \<Rightarrow>
        (case cell h a of
           Some (HObject kvs) \<Rightarrow> map_of kvs k
         | Some (HArray xs) \<Rightarrow>
             if k = ''length'' then Some (HNum (of_nat (length xs)))
             else map_of (zip (index_keys (length xs)) xs) k
         | None \<Rightarrow> None)
    | _ \<Rightarrow> None)"

definition h_prototype :: "heap \<Rightarrow> hval \<Rightarrow> prototype option" where
  "h_prototype h v = (case v of
      HRef a \<Rightarrow>
        (case cell h a of
           Some (HObject kvs) \<Rightarrow> Some ObjectPrototype
         | Some (HArray xs) \<Rightarrow> Some ArrayPrototype
         | None \<Rightarrow> None)
    | _ \<Rightarrow> None)"

fun h_get :: "heap \<Rightarrow> hval reached \<Rightarrow> string \<Rightarrow> hval reached option" where
  "h_get h (Data v) k =
     (case h_own h v k of
        Some w \<Rightarrow> Some (Data w)
      | None \<Rightarrow>
          (case h_prototype h v of
             Some proto \<Rightarrow> inherited proto k
           | None \<Rightarrow> None))"
| "h_get h (Prototype ObjectPrototype) k =
     (if k = ''__proto__'' then Some (Data HNull)
      else map_option Function (inherited_function ObjectPrototype k))"
| "h_get h (Prototype ArrayPrototype) k =
     (if k = ''length'' then Some (Data (HNum 0))
      else if k = ''__proto__'' then Some (Prototype ObjectPrototype)
      else map_option Function (inherited_function ArrayPrototype k))"
| "h_get h (Function name) k = None"

fun h_is_null :: "hval reached \<Rightarrow> bool" where
  "h_is_null (Data HNull) = True"
| "h_is_null _ = False"

fun h_reached_object :: "hval reached \<Rightarrow> bool" where
  "h_reached_object (Data v) = h_typeof_object v"
| "h_reached_object (Prototype proto) = True"
| "h_reached_object (Function name) = False"

fun h_walk ::
  "heap \<Rightarrow> string \<Rightarrow> hval reached option \<Rightarrow> string list \<Rightarrow> error + hval reached option" where
  "h_walk h ref current [] = Inr current"
| "h_walk h ref current (segment # path) =
     (case current of
        None \<Rightarrow> Inl (PathMissing ref)
      | Some v \<Rightarrow>
          if h_is_null v then Inl (PathMissing ref)
          else if \<not> h_reached_object v then Inl (InvalidPath ref)
          else h_walk h ref (h_get h v (decodeSegment segment)) path)"

definition h_resolveRef :: "heap \<Rightarrow> hval \<Rightarrow> hval \<Rightarrow> error + hval reached" where
  "h_resolveRef h spec ref =
     (case ref of
        HStr r \<Rightarrow>
          if \<not> startsWith r ''#/'' then Inl (ExternalRef r)
          else (case h_walk h r (Some (Data spec)) (split_on CHR ''/'' (drop 2 r)) of
                  Inl e \<Rightarrow> Inl e
                | Inr None \<Rightarrow> Inl (NotFound r)
                | Inr (Some v) \<Rightarrow> Inr v)
      | _ \<Rightarrow> Inl TypeError)"

fun h_spread :: "heap \<Rightarrow> hval reached \<Rightarrow> (string \<times> hval) list" where
  "h_spread h (Data v) = h_entries h v"
| "h_spread h _ = []"

fun exists_opt :: "('a \<Rightarrow> bool option) \<Rightarrow> 'a list \<Rightarrow> bool option" where
  "exists_opt f [] = Some False"
| "exists_opt f (x # xs) =
     (case f x of
        None \<Rightarrow> None
      | Some True \<Rightarrow> Some True
      | Some False \<Rightarrow> exists_opt f xs)"

fun h_toString_throws :: "nat \<Rightarrow> heap \<Rightarrow> hval \<Rightarrow> bool option" where
  "h_toString_throws n h (HRef a) =
     (case n of
        0 \<Rightarrow> None
      | Suc m \<Rightarrow>
          (case cell h a of
             Some (HObject kvs) \<Rightarrow> Some (map_of kvs ''toString'' \<noteq> None)
           | Some (HArray xs) \<Rightarrow> exists_opt (h_toString_throws m h) xs
           | None \<Rightarrow> Some False))"
| "h_toString_throws n h v = Some False"

fun h_visited_has :: "string set \<Rightarrow> hval \<Rightarrow> bool" where
  "h_visited_has visited (HStr p) = (p \<in> visited)"
| "h_visited_has visited _ = False"

fun h_visited_add :: "hval \<Rightarrow> string set \<Rightarrow> string set" where
  "h_visited_add (HStr p) visited = insert p visited"
| "h_visited_add _ visited = visited"

fun h_template_text :: "hval \<Rightarrow> string" where
  "h_template_text (HStr p) = p"
| "h_template_text _ = []"

definition h_placeholder :: "string \<Rightarrow> hobj" where
  "h_placeholder p =
     HObject [(''description'', HStr (''Circular reference: '' @ p)), (''type'', HStr ''object'')]"

fun h_map :: "('a \<Rightarrow> heap \<Rightarrow> 'b run \<times> heap) \<Rightarrow> 'a list \<Rightarrow> heap \<Rightarrow> 'b list run \<times> heap" where
  "h_map f [] h = (Returned [], h)"
| "h_map f (x # xs) h =
     (case f x h of
        (Returned y, h1) \<Rightarrow>
          (case h_map f xs h1 of
             (Returned ys, h2) \<Rightarrow> (Returned (y # ys), h2)
           | (Raised e, h2) \<Rightarrow> (Raised e, h2)
           | (OutOfFuel, h2) \<Rightarrow> (OutOfFuel, h2))
      | (Raised e, h1) \<Rightarrow> (Raised e, h1)
      | (OutOfFuel, h1) \<Rightarrow> (OutOfFuel, h1))"

definition h_then :: "'a run \<times> heap \<Rightarrow> ('a \<Rightarrow> heap \<Rightarrow> 'b run \<times> heap) \<Rightarrow> 'b run \<times> heap" where
  "h_then r k =
     (case r of
        (Returned v, h) \<Rightarrow> k v h
      | (Raised e, h) \<Rightarrow> (Raised e, h)
      | (OutOfFuel, h) \<Rightarrow> (OutOfFuel, h))"

definition h_properties :: "(hval \<Rightarrow> heap \<Rightarrow> hval run \<times> heap) \<Rightarrow> nat \<Rightarrow> heap \<Rightarrow> unit run \<times> heap" where
  "h_properties f result h =
     (case h_own h (HRef result) ''properties'' of
        Some ps \<Rightarrow>
          if h_truthy ps then
            h_then (h_map (\<lambda>(key, value) h'. h_then (f value h') (\<lambda>v h''. (Returned (key, v), h'')))
                      (h_entries h ps) h)
              (\<lambda>es h1. case alloc (HObject es) h1 of
                          (a, h2) \<Rightarrow> (Returned (), set_prop result ''properties'' (HRef a) h2))
          else (Returned (), h)
      | None \<Rightarrow> (Returned (), h))"

definition h_items :: "(hval \<Rightarrow> heap \<Rightarrow> hval run \<times> heap) \<Rightarrow> nat \<Rightarrow> heap \<Rightarrow> unit run \<times> heap" where
  "h_items f result h =
     (case h_own h (HRef result) ''items'' of
        Some items \<Rightarrow>
          if h_truthy items then
            (if h_is_array h items then
               h_then (h_map f (h_elements h items) h)
                 (\<lambda>ys h1. case alloc (HArray ys) h1 of
                             (a, h2) \<Rightarrow> (Returned (), set_prop result ''items'' (HRef a) h2))
             else
               h_then (f items h) (\<lambda>y h1. (Returned (), set_prop result ''items'' y h1)))
          else (Returned (), h)
      | None \<Rightarrow> (Returned (), h))"

definition h_additional :: "(hval \<Rightarrow> heap \<Rightarrow> hval run \<times> heap) \<Rightarrow> nat \<Rightarrow> heap \<Rightarrow> unit run \<times> heap" where
  "h_additional f result h =
     (case h_own h (HRef result) ''additionalProperties'' of
        Some ap \<Rightarrow>
          if h_truthy ap \<and> h_typeof_object ap then
            h_then (f ap h) (\<lambda>y h1. (Returned (), set_prop result ''additionalProperties'' y h1))
          else (Returned (), h)
      | None \<Rightarrow> (Returned (), h))"

definition h_members ::
  "string \<Rightarrow> (hval \<Rightarrow> heap \<Rightarrow> hval run \<times> heap) \<Rightarrow> nat \<Rightarrow> heap \<Rightarrow> unit run \<times> heap" where
  "h_members key f result h =
     (case h_own h (HRef result) key of
        Some ms \<Rightarrow>
          if h_truthy ms then
            (if h_is_array h ms then
               h_then (h_map f (h_elements h ms) h)
                 (\<lambda>ys h1. case alloc (HArray ys) h1 of
                             (a, h2) \<Rightarrow> (Returned (), set_prop result key (HRef a) h2))
             else (Raised TypeError, h))
          else (Returned (), h)
      | None \<Rightarrow> (Returned (), h))"

definition h_not :: "(hval \<Rightarrow> heap \<Rightarrow> hval run \<times> heap) \<Rightarrow> nat \<Rightarrow> heap \<Rightarrow> unit run \<times> heap" where
  "h_not f result h =
     (case h_own h (HRef result) ''not'' of
        Some n \<Rightarrow>
          if h_truthy n then
            h_then (f n h) (\<lambda>y h1. (Returned (), set_prop result ''not'' y h1))
          else (Returned (), h)
      | None \<Rightarrow> (Returned (), h))"

definition h_resolve_nested ::
  "(hval \<Rightarrow> heap \<Rightarrow> hval run \<times> heap) \<Rightarrow> hval \<Rightarrow> heap \<Rightarrow> hval run \<times> heap" where
  "h_resolve_nested f schema h =
     (case alloc (HObject (h_entries h schema)) h of
        (result, h0) \<Rightarrow>
          h_then (h_properties f result h0) (\<lambda>_ h1.
          h_then (h_items f result h1) (\<lambda>_ h2.
          h_then (h_additional f result h2) (\<lambda>_ h3.
          h_then (h_members ''allOf'' f result h3) (\<lambda>_ h4.
          h_then (h_members ''oneOf'' f result h4) (\<lambda>_ h5.
          h_then (h_members ''anyOf'' f result h5) (\<lambda>_ h6.
          h_then (h_not f result h6) (\<lambda>_ h7. (Returned (HRef result), h7)))))))))"

definition h_catch :: "nat \<Rightarrow> hval \<Rightarrow> hval \<Rightarrow> heap \<Rightarrow> hval run \<times> heap" where
  "h_catch n schema ref h =
     (case h_toString_throws n h ref of
        None \<Rightarrow> (OutOfFuel, h)
      | Some True \<Rightarrow> (Raised TypeError, h)
      | Some False \<Rightarrow> (Returned schema, h))"

fun resolveSchemaH :: "nat \<Rightarrow> hval \<Rightarrow> hval \<Rightarrow> string set \<Rightarrow> heap \<Rightarrow> hval run \<times> heap" where
  "resolveSchemaH 0 spec schema visited h = (OutOfFuel, h)"
| "resolveSchemaH (Suc n) spec schema visited h =
     (if \<not> h_truthy schema \<or> \<not> h_typeof_object schema then (Returned schema, h)
      else
        (case h_own h schema ''$ref'' of
           Some ref \<Rightarrow>
             if h_truthy ref then
               (if h_visited_has visited ref then
                  (case alloc (h_placeholder (h_template_text ref)) h of
                     (a, h1) \<Rightarrow> (Returned (HRef a), h1))
                else
                  (case h_resolveRef h spec ref of
                     Inl e \<Rightarrow> h_catch n schema ref h
                   | Inr resolved \<Rightarrow>
                       (case alloc (HObject (without_key ''$ref'' (h_entries h schema))) h of
                          (rest, h1) \<Rightarrow>
                            (case alloc (HObject (assign (h_spread h1 resolved)
                                                         (h_entries h1 (HRef rest)))) h1 of
                               (merged, h2) \<Rightarrow>
                                 (case resolveSchemaH n spec (HRef merged)
                                         (h_visited_add ref visited) h2 of
                                    (Returned v, h3) \<Rightarrow> (Returned v, h3)
                                  | (Raised e, h3) \<Rightarrow> h_catch n schema ref h3
                                  | (OutOfFuel, h3) \<Rightarrow> (OutOfFuel, h3))))))
             else h_resolve_nested (\<lambda>s. resolveSchemaH n spec s visited) schema h
         | None \<Rightarrow> h_resolve_nested (\<lambda>s. resolveSchemaH n spec s visited) schema h))"

text \<open>
  \<open>extends h h'\<close>: every cell of \<open>h\<close> is still there in \<open>h'\<close>, with the same content.
  A computation is framed when the heap it leaves extends the heap it was given.
\<close>

definition extends :: "heap \<Rightarrow> heap \<Rightarrow> bool" where
  "extends h h' = (take (length h) h' = h)"

definition framed :: "('a \<Rightarrow> heap \<Rightarrow> 'b run \<times> heap) \<Rightarrow> bool" where
  "framed f = (\<forall>x h out h'. f x h = (out, h') \<longrightarrow> extends h h')"

lemma extends_refl: "extends h h"
  by (simp add: extends_def)

lemma extends_length: "extends h h' \<Longrightarrow> length h \<le> length h'"
proof -
  assume "extends h h'"
  then have "length (take (length h) h') = length h" by (simp add: extends_def)
  then show ?thesis by simp
qed

lemma extends_trans: "extends a b \<Longrightarrow> extends b c \<Longrightarrow> extends a c"
proof -
  assume ab: "extends a b" and bc: "extends b c"
  have le: "length a \<le> length b" using ab by (rule extends_length)
  have "take (length a) c = take (length a) (take (length b) c)"
    using le by (simp add: min_def)
  also have "\<dots> = take (length a) b" using bc by (simp add: extends_def)
  also have "\<dots> = a" using ab by (simp add: extends_def)
  finally show ?thesis by (simp add: extends_def)
qed

lemma extends_alloc: "alloc obj h = (a, h') \<Longrightarrow> extends h h' \<and> a = length h"
  by (auto simp: alloc_def extends_def)

lemma extends_set_prop:
  assumes "extends b h" "length b \<le> a"
  shows "extends b (set_prop a key v h)"
proof -
  have "take (length b) (h[a := x]) = take (length b) h" for x
    using assms(2) by simp
  then show ?thesis
    using assms(1) by (auto simp: set_prop_def extends_def split: option.splits hobj.splits)
qed

lemma extends_cell: "extends h h' \<Longrightarrow> cell h a = Some obj \<Longrightarrow> cell h' a = Some obj"
proof -
  assume e: "extends h h'" and c: "cell h a = Some obj"
  from c have a: "a < length h" and o: "h ! a = obj"
    by (auto simp: cell_def split: if_splits)
  from e have "h' ! a = take (length h) h' ! a" using a by simp
  also have "\<dots> = obj" using e o by (simp add: extends_def)
  finally show ?thesis using a extends_length[OF e] by (simp add: cell_def)
qed

lemma h_then_extends:
  assumes "h_then r k = (out, h')"
    and "extends b (snd r)"
    and "\<And>v h1 out1 h2. r = (Returned v, h1) \<Longrightarrow> k v h1 = (out1, h2) \<Longrightarrow> extends b h2"
  shows "extends b h'"
proof (cases r)
  case (Pair res h1)
  show ?thesis
  proof (cases res)
    case (Returned v)
    with Pair assms(1) have "k v h1 = (out, h')" by (simp add: h_then_def)
    with assms(3)[of v h1 out h'] Pair Returned show ?thesis by simp
  next
    case (Raised e)
    with Pair assms(1,2) show ?thesis by (simp add: h_then_def)
  next
    case OutOfFuel
    with Pair assms(1,2) show ?thesis by (simp add: h_then_def)
  qed
qed

lemma h_map_extends:
  assumes "framed f"
  shows "h_map f xs h = (out, h') \<Longrightarrow> extends h h'"
proof (induction xs arbitrary: h out h')
  case Nil
  then show ?case by (simp add: extends_refl)
next
  case (Cons x xs)
  obtain r1 h1 where fx: "f x h = (r1, h1)" by (cases "f x h")
  then have e1: "extends h h1" using assms by (auto simp: framed_def)
  show ?case
  proof (cases r1)
    case (Returned y)
    obtain r2 h2 where m: "h_map f xs h1 = (r2, h2)" by (cases "h_map f xs h1")
    then have e2: "extends h1 h2" by (rule Cons.IH)
    have "h' = h2" using Cons.prems fx Returned m by (cases r2) auto
    with e1 e2 show ?thesis using extends_trans by blast
  next
    case (Raised e)
    with Cons.prems fx e1 show ?thesis by simp
  next
    case OutOfFuel
    with Cons.prems fx e1 show ?thesis by simp
  qed
qed

lemma framed_entry:
  fixes f :: "hval \<Rightarrow> heap \<Rightarrow> hval run \<times> heap"
  assumes "framed f"
  shows "framed (\<lambda>(key :: string, value) h'. h_then (f value h') (\<lambda>v h''. (Returned (key, v), h'')))"
proof -
  have "extends h h'"
    if t: "h_then (f val h) (\<lambda>v h''. (Returned (key, v), h'')) = (out, h')"
    for key :: string and val h and out :: "(string \<times> hval) run" and h'
  proof -
    obtain r1 h1 where fx: "f val h = (r1, h1)" by (cases "f val h")
    then have "extends h h1" using assms by (auto simp: framed_def)
    moreover have "h' = h1" using t fx by (cases r1) (auto simp: h_then_def)
    ultimately show ?thesis by simp
  qed
  then show ?thesis unfolding framed_def by auto
qed

lemma store_after_extends:
  assumes "extends b h1" "length b \<le> result" "alloc obj h1 = (a, h2)"
  shows "extends b (set_prop result key v h2)"
proof -
  have "extends h1 h2" using extends_alloc[OF assms(3)] by simp
  with assms(1) have "extends b h2" using extends_trans by blast
  then show ?thesis using assms(2) by (rule extends_set_prop)
qed

lemma h_properties_extends:
  assumes "framed f" "extends b h" "length b \<le> result" "h_properties f result h = (out, h')"
  shows "extends b h'"
proof (cases "h_own h (HRef result) ''properties''")
  case None
  with assms show ?thesis by (simp add: h_properties_def)
next
  case (Some ps)
  show ?thesis
  proof (cases "h_truthy ps")
    case False
    with Some assms show ?thesis by (simp add: h_properties_def)
  next
    case True
    let ?g = "\<lambda>(key, value) h'. h_then (f value h') (\<lambda>v h''. (Returned (key, v), h''))"
    let ?m = "h_map ?g (h_entries h ps) h"
    have t: "h_then ?m (\<lambda>es h1. case alloc (HObject es) h1 of
                          (a, h2) \<Rightarrow> (Returned (), set_prop result ''properties'' (HRef a) h2))
               = (out, h')"
      using assms(4) Some True by (simp add: h_properties_def)
    have em: "extends h (snd ?m)"
      using h_map_extends[OF framed_entry[OF assms(1)], of "h_entries h ps" h "fst ?m" "snd ?m"]
      by simp
    show ?thesis
    proof (rule h_then_extends[OF t])
      show "extends b (snd ?m)" using assms(2) em extends_trans by blast
    next
      fix es h1 out1 h2
      assume m: "?m = (Returned es, h1)"
        and k: "(case alloc (HObject es) h1 of
                   (a, h2) \<Rightarrow> (Returned (), set_prop result ''properties'' (HRef a) h2)) = (out1, h2)"
      from m em have "extends h h1" by simp
      with assms(2) have b1: "extends b h1" using extends_trans by blast
      obtain a ha where al: "alloc (HObject es) h1 = (a, ha)" by (cases "alloc (HObject es) h1")
      with k have "h2 = set_prop result ''properties'' (HRef a) ha" by simp
      then show "extends b h2" using store_after_extends[OF b1 assms(3) al] by simp
    qed
  qed
qed

lemma call_store_extends:
  fixes f :: "hval \<Rightarrow> heap \<Rightarrow> hval run \<times> heap"
  assumes "framed f" "extends b h" "length b \<le> result"
    and "h_then (f x h) (\<lambda>y h1. (Returned (), set_prop result key y h1)) = (out, h')"
  shows "extends b h'"
proof (rule h_then_extends[OF assms(4)])
  have "extends h (snd (f x h))"
    using assms(1) by (cases "f x h") (auto simp: framed_def)
  then show "extends b (snd (f x h))" using assms(2) extends_trans by blast
next
  fix v h1 out1 h2
  assume fx: "f x h = (Returned v, h1)" and k: "(Returned (), set_prop result key v h1) = (out1, h2)"
  from fx have "extends h h1" using assms(1) by (auto simp: framed_def)
  with assms(2) have "extends b h1" using extends_trans by blast
  then have "extends b (set_prop result key v h1)" using assms(3) by (rule extends_set_prop)
  with k show "extends b h2" by simp
qed

lemma map_store_extends:
  fixes f :: "hval \<Rightarrow> heap \<Rightarrow> hval run \<times> heap"
  assumes "framed f" "extends b h" "length b \<le> result"
    and "h_then (h_map f xs h)
           (\<lambda>ys h1. case alloc (HArray ys) h1 of
                       (a, h2) \<Rightarrow> (Returned (), set_prop result key (HRef a) h2)) = (out, h')"
  shows "extends b h'"
proof (rule h_then_extends[OF assms(4)])
  have em: "extends h (snd (h_map f xs h))"
    using h_map_extends[OF assms(1), of xs h "fst (h_map f xs h)" "snd (h_map f xs h)"] by simp
  then show "extends b (snd (h_map f xs h))" using assms(2) extends_trans by blast
next
  fix ys h1 out1 h2
  assume m: "h_map f xs h = (Returned ys, h1)"
    and k: "(case alloc (HArray ys) h1 of
               (a, h2) \<Rightarrow> (Returned (), set_prop result key (HRef a) h2)) = (out1, h2)"
  from m have "extends h h1" using h_map_extends[OF assms(1)] by blast
  with assms(2) have b1: "extends b h1" using extends_trans by blast
  obtain a ha where al: "alloc (HArray ys) h1 = (a, ha)" by (cases "alloc (HArray ys) h1")
  with k have "h2 = set_prop result key (HRef a) ha" by simp
  then show "extends b h2" using store_after_extends[OF b1 assms(3) al] by simp
qed

lemma h_items_extends:
  assumes "framed f" "extends b h" "length b \<le> result" "h_items f result h = (out, h')"
  shows "extends b h'"
proof (cases "h_own h (HRef result) ''items''")
  case None
  with assms show ?thesis by (simp add: h_items_def)
next
  case (Some items)
  show ?thesis
  proof (cases "h_truthy items")
    case False
    with Some assms show ?thesis by (simp add: h_items_def)
  next
    case True
    show ?thesis
    proof (cases "h_is_array h items")
      case arr: True
      with assms(4) Some True show ?thesis
        using map_store_extends[OF assms(1,2,3), of "h_elements h items" "''items''" out h']
        by (simp add: h_items_def)
    next
      case False
      with assms(4) Some True show ?thesis
        using call_store_extends[OF assms(1,2,3), of items "''items''" out h']
        by (simp add: h_items_def)
    qed
  qed
qed

lemma h_additional_extends:
  assumes "framed f" "extends b h" "length b \<le> result" "h_additional f result h = (out, h')"
  shows "extends b h'"
proof (cases "h_own h (HRef result) ''additionalProperties''")
  case None
  with assms show ?thesis by (simp add: h_additional_def)
next
  case (Some ap)
  show ?thesis
  proof (cases "h_truthy ap \<and> h_typeof_object ap")
    case False
    with Some assms show ?thesis by (auto simp: h_additional_def)
  next
    case True
    with assms(4) Some show ?thesis
      using call_store_extends[OF assms(1,2,3), of ap "''additionalProperties''" out h']
      by (simp add: h_additional_def)
  qed
qed

lemma h_not_extends:
  assumes "framed f" "extends b h" "length b \<le> result" "h_not f result h = (out, h')"
  shows "extends b h'"
proof (cases "h_own h (HRef result) ''not''")
  case None
  with assms show ?thesis by (simp add: h_not_def)
next
  case (Some n)
  show ?thesis
  proof (cases "h_truthy n")
    case False
    with Some assms show ?thesis by (simp add: h_not_def)
  next
    case True
    with assms(4) Some show ?thesis
      using call_store_extends[OF assms(1,2,3), of n "''not''" out h']
      by (simp add: h_not_def)
  qed
qed

lemma h_members_extends:
  assumes "framed f" "extends b h" "length b \<le> result" "h_members key f result h = (out, h')"
  shows "extends b h'"
proof (cases "h_own h (HRef result) key")
  case None
  with assms show ?thesis by (simp add: h_members_def)
next
  case (Some ms)
  show ?thesis
  proof (cases "h_truthy ms")
    case False
    with Some assms show ?thesis by (simp add: h_members_def)
  next
    case True
    show ?thesis
    proof (cases "h_is_array h ms")
      case arr: True
      with assms(4) Some True show ?thesis
        using map_store_extends[OF assms(1,2,3), of "h_elements h ms" key out h']
        by (simp add: h_members_def)
    next
      case False
      with assms Some True show ?thesis by (simp add: h_members_def)
    qed
  qed
qed

lemma h_resolve_nested_extends:
  assumes f: "framed f" and run: "h_resolve_nested f schema h = (out, h')"
  shows "extends h h'"
proof -
  obtain result h0 where al: "alloc (HObject (h_entries h schema)) h = (result, h0)"
    by (cases "alloc (HObject (h_entries h schema)) h")
  from extends_alloc[OF al] have e0: "extends h h0" and r: "length h \<le> result" by simp_all
  note st = h_properties_extends[OF f _ r] h_items_extends[OF f _ r]
    h_additional_extends[OF f _ r] h_members_extends[OF f _ r] h_not_extends[OF f _ r]
  have t: "h_then (h_properties f result h0) (\<lambda>_ h1.
          h_then (h_items f result h1) (\<lambda>_ h2.
          h_then (h_additional f result h2) (\<lambda>_ h3.
          h_then (h_members ''allOf'' f result h3) (\<lambda>_ h4.
          h_then (h_members ''oneOf'' f result h4) (\<lambda>_ h5.
          h_then (h_members ''anyOf'' f result h5) (\<lambda>_ h6.
          h_then (h_not f result h6) (\<lambda>_ h7. (Returned (HRef result), h7)))))))) = (out, h')"
    using run al by (simp add: h_resolve_nested_def)
  show ?thesis
  proof (rule h_then_extends[OF t])
    show "extends h (snd (h_properties f result h0))"
      using st(1)[OF e0, of "fst (h_properties f result h0)" "snd (h_properties f result h0)"] by simp
  next
    fix u1 h1 out1 g1
    assume s1: "h_properties f result h0 = (Returned u1, h1)"
      and t1: "h_then (h_items f result h1) (\<lambda>_ h2.
          h_then (h_additional f result h2) (\<lambda>_ h3.
          h_then (h_members ''allOf'' f result h3) (\<lambda>_ h4.
          h_then (h_members ''oneOf'' f result h4) (\<lambda>_ h5.
          h_then (h_members ''anyOf'' f result h5) (\<lambda>_ h6.
          h_then (h_not f result h6) (\<lambda>_ h7. (Returned (HRef result), h7))))))) = (out1, g1)"
    have e1: "extends h h1" using st(1)[OF e0 s1] .
    show "extends h g1"
    proof (rule h_then_extends[OF t1])
      show "extends h (snd (h_items f result h1))"
        using st(2)[OF e1, of "fst (h_items f result h1)" "snd (h_items f result h1)"] by simp
    next
      fix u2 h2 out2 g2
      assume s2: "h_items f result h1 = (Returned u2, h2)"
        and t2: "h_then (h_additional f result h2) (\<lambda>_ h3.
          h_then (h_members ''allOf'' f result h3) (\<lambda>_ h4.
          h_then (h_members ''oneOf'' f result h4) (\<lambda>_ h5.
          h_then (h_members ''anyOf'' f result h5) (\<lambda>_ h6.
          h_then (h_not f result h6) (\<lambda>_ h7. (Returned (HRef result), h7)))))) = (out2, g2)"
      have e2: "extends h h2" using st(2)[OF e1 s2] .
      show "extends h g2"
      proof (rule h_then_extends[OF t2])
        show "extends h (snd (h_additional f result h2))"
          using st(3)[OF e2, of "fst (h_additional f result h2)" "snd (h_additional f result h2)"]
          by simp
      next
        fix u3 h3 out3 g3
        assume s3: "h_additional f result h2 = (Returned u3, h3)"
          and t3: "h_then (h_members ''allOf'' f result h3) (\<lambda>_ h4.
            h_then (h_members ''oneOf'' f result h4) (\<lambda>_ h5.
            h_then (h_members ''anyOf'' f result h5) (\<lambda>_ h6.
            h_then (h_not f result h6) (\<lambda>_ h7. (Returned (HRef result), h7))))) = (out3, g3)"
        have e3: "extends h h3" using st(3)[OF e2 s3] .
        show "extends h g3"
        proof (rule h_then_extends[OF t3])
          show "extends h (snd (h_members ''allOf'' f result h3))"
            using st(4)[OF e3, of "''allOf''" "fst (h_members ''allOf'' f result h3)"
                         "snd (h_members ''allOf'' f result h3)"] by simp
        next
          fix u4 h4 out4 g4
          assume s4: "h_members ''allOf'' f result h3 = (Returned u4, h4)"
            and t4: "h_then (h_members ''oneOf'' f result h4) (\<lambda>_ h5.
              h_then (h_members ''anyOf'' f result h5) (\<lambda>_ h6.
              h_then (h_not f result h6) (\<lambda>_ h7. (Returned (HRef result), h7)))) = (out4, g4)"
          have e4: "extends h h4" using st(4)[OF e3 s4] .
          show "extends h g4"
          proof (rule h_then_extends[OF t4])
            show "extends h (snd (h_members ''oneOf'' f result h4))"
              using st(4)[OF e4, of "''oneOf''" "fst (h_members ''oneOf'' f result h4)"
                           "snd (h_members ''oneOf'' f result h4)"] by simp
          next
            fix u5 h5 out5 g5
            assume s5: "h_members ''oneOf'' f result h4 = (Returned u5, h5)"
              and t5: "h_then (h_members ''anyOf'' f result h5) (\<lambda>_ h6.
                h_then (h_not f result h6) (\<lambda>_ h7. (Returned (HRef result), h7))) = (out5, g5)"
            have e5: "extends h h5" using st(4)[OF e4 s5] .
            show "extends h g5"
            proof (rule h_then_extends[OF t5])
              show "extends h (snd (h_members ''anyOf'' f result h5))"
                using st(4)[OF e5, of "''anyOf''" "fst (h_members ''anyOf'' f result h5)"
                             "snd (h_members ''anyOf'' f result h5)"] by simp
            next
              fix u6 h6 out6 g6
              assume s6: "h_members ''anyOf'' f result h5 = (Returned u6, h6)"
                and t6: "h_then (h_not f result h6) (\<lambda>_ h7. (Returned (HRef result), h7)) = (out6, g6)"
              have e6: "extends h h6" using st(4)[OF e5 s6] .
              show "extends h g6"
              proof (rule h_then_extends[OF t6])
                show "extends h (snd (h_not f result h6))"
                  using st(5)[OF e6, of "fst (h_not f result h6)" "snd (h_not f result h6)"] by simp
              next
                fix u7 h7 out7 g7
                assume s7: "h_not f result h6 = (Returned u7, h7)"
                  and t7: "(Returned (HRef result), h7) = (out7, g7)"
                have "extends h h7" using st(5)[OF e6 s7] .
                with t7 show "extends h g7" by simp
              qed
            qed
          qed
        qed
      qed
    qed
  qed
qed

lemma h_catch_heap: "h_catch n schema ref h = (out, h') \<Longrightarrow> h' = h"
  by (auto simp: h_catch_def split: option.splits bool.splits)

lemma resolveSchemaH_extends:
  "resolveSchemaH fuel spec schema visited h = (out, h') \<Longrightarrow> extends h h'"
proof (induction fuel arbitrary: schema visited h out h')
  case 0
  then show ?case by (simp add: extends_refl)
next
  case (Suc n)
  have fr: "framed (\<lambda>s. resolveSchemaH n spec s visited)" for visited
    unfolding framed_def using Suc.IH by blast
  show ?case
  proof (cases "\<not> h_truthy schema \<or> \<not> h_typeof_object schema")
    case True
    with Suc.prems show ?thesis by (auto simp: extends_refl)
  next
    case obj: False
    show ?thesis
    proof (cases "h_own h schema ''$ref''")
      case None
      with Suc.prems obj have "h_resolve_nested (\<lambda>s. resolveSchemaH n spec s visited) schema h = (out, h')"
        by simp
      then show ?thesis using h_resolve_nested_extends[OF fr] by blast
    next
      case (Some ref)
      show ?thesis
      proof (cases "h_truthy ref")
        case False
        with Suc.prems obj Some
        have "h_resolve_nested (\<lambda>s. resolveSchemaH n spec s visited) schema h = (out, h')"
          by simp
        then show ?thesis using h_resolve_nested_extends[OF fr] by blast
      next
        case True
        show ?thesis
        proof (cases "h_visited_has visited ref")
          case vis: True
          with Suc.prems obj Some True show ?thesis
            by (auto simp: alloc_def extends_def)
        next
          case nv: False
          show ?thesis
          proof (cases "h_resolveRef h spec ref")
            case (Inl e)
            with Suc.prems obj Some True nv have "h_catch n schema ref h = (out, h')" by simp
            then show ?thesis using h_catch_heap extends_refl by blast
          next
            case (Inr resolved)
            let ?h1 = "h @ [HObject (without_key ''$ref'' (h_entries h schema))]"
            let ?h2 = "?h1 @ [HObject (assign (h_spread ?h1 resolved)
                                        (h_entries ?h1 (HRef (length h))))]"
            obtain r3 h3 where rec: "resolveSchemaH n spec (HRef (length ?h1))
                                       (h_visited_add ref visited) ?h2 = (r3, h3)"
              by (cases "resolveSchemaH n spec (HRef (length ?h1)) (h_visited_add ref visited) ?h2")
            have e2: "extends h ?h2" by (simp add: extends_def)
            have e3: "extends ?h2 h3" using Suc.IH[OF rec] .
            have e: "extends h h3" using e2 e3 extends_trans by blast
            have "h' = h3"
            proof (cases r3)
              case (Returned v)
              with Suc.prems obj Some True nv Inr rec show ?thesis by (simp add: alloc_def)
            next
              case (Raised err)
              with Suc.prems obj Some True nv Inr rec
              have "h_catch n schema ref h3 = (out, h')" by (simp add: alloc_def)
              then show ?thesis by (rule h_catch_heap)
            next
              case OutOfFuel
              with Suc.prems obj Some True nv Inr rec show ?thesis by (simp add: alloc_def)
            qed
            with e show ?thesis by simp
          qed
        qed
      qed
    qed
  qed
qed

text \<open>
  Reading a JSON value back out of the heap, down to a given depth.
\<close>

fun decode :: "nat \<Rightarrow> heap \<Rightarrow> hval \<Rightarrow> json option" where
  "decode n h HNull = Some JNull"
| "decode n h (HBool b) = Some (JBool b)"
| "decode n h (HNum q) = Some (JNum q)"
| "decode n h (HStr s) = Some (JStr s)"
| "decode n h (HRef a) =
     (case n of
        0 \<Rightarrow> None
      | Suc m \<Rightarrow>
          (case cell h a of
             None \<Rightarrow> None
           | Some (HObject kvs) \<Rightarrow>
               map_option JObj (those (map (\<lambda>(k, v). map_option (Pair k) (decode m h v)) kvs))
           | Some (HArray xs) \<Rightarrow> map_option JArr (those (map (decode m h) xs))))"

lemma those_map_mono:
  assumes "\<And>x y. x \<in> set xs \<Longrightarrow> f x = Some y \<Longrightarrow> g x = Some y"
  shows "those (map f xs) = Some ys \<Longrightarrow> those (map g xs) = Some ys"
  using assms
proof (induction xs arbitrary: ys)
  case Nil
  then show ?case by simp
next
  case (Cons x xs)
  from Cons.prems(1) obtain y ys' where fx: "f x = Some y"
      and rest: "those (map f xs) = Some ys'" and ys: "ys = y # ys'"
    by (auto split: option.splits)
  have "g x = Some y" using Cons.prems(2)[of x y] fx by simp
  moreover have "those (map g xs) = Some ys'"
    using Cons.IH[OF rest] Cons.prems(2) by simp
  ultimately show ?case using ys by simp
qed

lemma decode_extends:
  "extends h h' \<Longrightarrow> decode n h v = Some j \<Longrightarrow> decode n h' v = Some j"
proof (induction n arbitrary: v j)
  case 0
  then show ?case by (cases v) simp_all
next
  case (Suc m)
  show ?case
  proof (cases v)
    case (HRef a)
    with Suc.prems(2) obtain obj where c: "cell h a = Some obj"
      by (auto split: option.splits)
    then have c': "cell h' a = Some obj" using Suc.prems(1) extends_cell by blast
    show ?thesis
    proof (cases obj)
      case (HObject kvs)
      with Suc.prems(2) HRef c obtain js where
          t: "those (map (\<lambda>(k, v). map_option (Pair k) (decode m h v)) kvs) = Some js"
          and j: "j = JObj js"
        by auto
      have "those (map (\<lambda>(k, v). map_option (Pair k) (decode m h' v)) kvs) = Some js"
      proof (rule those_map_mono[OF _ t])
        fix x :: "string \<times> hval" and y
        assume "(case x of (k, v) \<Rightarrow> map_option (Pair k) (decode m h v)) = Some y"
        then show "(case x of (k, v) \<Rightarrow> map_option (Pair k) (decode m h' v)) = Some y"
          using Suc.IH[OF Suc.prems(1)] by (cases x) auto
      qed
      with HRef c' HObject j show ?thesis by simp
    next
      case (HArray xs)
      with Suc.prems(2) HRef c obtain js where
          t: "those (map (decode m h) xs) = Some js" and j: "j = JArr js"
        by auto
      have "those (map (decode m h') xs) = Some js"
        by (rule those_map_mono[OF _ t]) (use Suc.IH[OF Suc.prems(1)] in blast)
      with HRef c' HArray j show ?thesis by simp
    qed
  qed (use Suc.prems in simp_all)
qed

text \<open>
  The \<^verbatim>\<open>Node\<close> document laid out on a heap (cells 0 to 5), the fragment
  \<^verbatim>\<open>{ "$ref": "#/components/schemas/Node" }\<close> in cell 6, and the heap after resolving
  it: the rest object, the merged copy, the result copy, the placeholder and the new
  \<^verbatim>\<open>properties\<close> object, all allocated behind the inputs.
\<close>

abbreviation node_heap :: heap where
  "node_heap \<equiv>
     [HObject [(''openapi'', HStr ''3.0.0''), (''components'', HRef 1)],
      HObject [(''schemas'', HRef 2)],
      HObject [(''Node'', HRef 3)],
      HObject [(''type'', HStr ''object''), (''properties'', HRef 4)],
      HObject [(''next'', HRef 5)],
      HObject [(''$ref'', HStr ''#/components/schemas/Node'')],
      HObject [(''$ref'', HStr ''#/components/schemas/Node'')]]"

abbreviation node_heap_after :: heap where
  "node_heap_after \<equiv> node_heap @
     [HObject [],
      HObject [(''type'', HStr ''object''), (''properties'', HRef 4)],
      HObject [(''type'', HStr ''object''), (''properties'', HRef 11)],
      HObject [(''description'', HStr ''Circular reference: #/components/schemas/Node''),
               (''type'', HStr ''object'')],
      HObject [(''next'', HRef 10)]]"

text \<open>
  The walk on the heap arrives where the walk on values does, also when a segment names
  something inherited.
\<close>

lemma h_inherited_member_resolves:
  "h_resolveRef node_heap (HRef 0) (HStr ''#/components/schemas/Node'') = Inr (Data (HRef 3))
   \<and> h_resolveRef node_heap (HRef 0) (HStr ''#/components/schemas/constructor'')
       = Inr (Function ''Object'')
   \<and> resolveRef node_doc (JStr ''#/components/schemas/constructor'') = Inr (Function ''Object'')
   \<and> h_resolveRef node_heap (HRef 0) (HStr ''#/components/schemas/Missing'')
       = Inl (NotFound ''#/components/schemas/Missing'')"
  by code_simp

text \<open>
  Claim C10. \<^verbatim>\<open>resolveSchema\<close> never mutates its inputs: whatever the call does and
  however it ends, every object that existed before the call has the content it had, so
  the document and the fragment read back as the same JSON values afterwards (and a
  later resolution against the same document starts from the same graph).
\<close>

theorem resolveSchemaH_leaves_inputs_unchanged:
  assumes "resolveSchemaH fuel spec schema visited h = (out, h')"
  shows "take (length h) h' = h
       \<and> (decode n h spec = Some doc \<longrightarrow> decode n h' spec = Some doc)
       \<and> (decode n h schema = Some fragment \<longrightarrow> decode n h' schema = Some fragment)"
proof -
  have e: "extends h h'" using assms by (rule resolveSchemaH_extends)
  then show ?thesis using decode_extends[OF e] by (auto simp: extends_def)
qed

theorem resolveSchemaH_leaves_inputs_unchanged_witness:
  "resolveSchemaH 6 (HRef 0) (HRef 6) {} node_heap = (Returned (HRef 9), node_heap_after)
   \<and> take (length node_heap) node_heap_after = node_heap
   \<and> decode 6 node_heap_after (HRef 0) = Some node_doc
   \<and> decode 6 node_heap_after (HRef 6) = Some (JObj [(''$ref'', JStr ''#/components/schemas/Node'')])
   \<and> map_option Inr (decode 6 node_heap_after (HRef 9))
       = Some (resolveSchema node_doc (JObj [(''$ref'', JStr ''#/components/schemas/Node'')]) {})"
proof -
  have run: "resolveSchemaH 6 (HRef 0) (HRef 6) {} node_heap = (Returned (HRef 9), node_heap_after)"
    by code_simp
  have d0: "decode 6 node_heap (HRef 0) = Some node_doc"
    by code_simp
  have d6: "decode 6 node_heap (HRef 6) = Some (JObj [(''$ref'', JStr ''#/components/schemas/Node'')])"
    by code_simp
  have pure: "resolveSchema node_doc (JObj [(''$ref'', JStr ''#/components/schemas/Node'')]) {} =
     Inr (JObj [(''type'', JStr ''object''),
                (''properties'', JObj [(''next'',
                   JObj [(''description'', JStr ''Circular reference: #/components/schemas/Node''),
                         (''type'', JStr ''object'')])])])"
    by code_simp
  have d9: "decode 6 node_heap_after (HRef 9) =
     Some (JObj [(''type'', JStr ''object''),
                (''properties'', JObj [(''next'',
                   JObj [(''description'', JStr ''Circular reference: #/components/schemas/Node''),
                         (''type'', JStr ''object'')])])])"
    by code_simp
  from resolveSchemaH_leaves_inputs_unchanged[OF run, of 6 node_doc
         "JObj [(''$ref'', JStr ''#/components/schemas/Node'')]"] d0 d6
  have "take (length node_heap) node_heap_after = node_heap
     \<and> decode 6 node_heap_after (HRef 0) = Some node_doc
     \<and> decode 6 node_heap_after (HRef 6) = Some (JObj [(''$ref'', JStr ''#/components/schemas/Node'')])"
    by blast
  with run pure d9 show ?thesis by simp
qed

end
